theory Spec2Isabelle
  imports
    Main
    "HOL-Library.AList"
    "HOL-Library.Char_ord"
    "HOL-Library.List_Lexorder"
    "HOL-Library.Multiset"
    "HOL-Library.Product_Lexorder"
begin

section \<open>The SMTP relay of \<^verbatim>\<open>src/smtp_relay/app.py\<close>\<close>

text \<open>
  The handler \<^verbatim>\<open>StoreHandler\<close> stores every received message under
  \<^verbatim>\<open>/app/mail_store/msg-<i>.eml\<close> and then tries to deliver it to each recipient,
  through a configured relay first and through the MX hosts of the recipient's domain
  otherwise.

  The code talks to the file system, the process environment, the DNS resolver,
  \<^verbatim>\<open>smtplib\<close> and the \<^verbatim>\<open>email\<close> parser. None of these is code of the repository, so each
  is a field of the record \<open>world\<close>: a function that answers a call. The calls that reach
  outside the process additionally receive the list of events that happened before, so
  that the same request may be answered differently at different times. Every theorem
  holds for every world.

  Python's \<^verbatim>\<open>str\<close> is modelled as \<open>string\<close>, one \<open>char\<close> per code point, which covers
  text whose code points are below 256; \<^verbatim>\<open>bytes\<close> is a list of \<open>char\<close> as well.
  An exception is a value of \<open>exn\<close>, and a call that may raise returns \<open>exn + 'a\<close>.
  Only subclasses of \<^verbatim>\<open>Exception\<close> are modelled (the handlers of the source catch
  exactly those).

  \<^verbatim>\<open>handle_DATA\<close> is a coroutine without any \<^verbatim>\<open>await\<close>: once called it runs to its
  reply, the deliveries included, and no other call of the handler runs in between. So
  one call is a function from the state before to the reply and the state after.
\<close>

subsection \<open>Data\<close>

type_synonym bytes = string

datatype exn =
    ValueError
  | IndexError
  | RuntimeError string
  | LibraryError string

record envelope =
  mail_from :: string
  rcpt_tos :: "string list"
  content :: bytes

text \<open>
  The calls made on an \<^verbatim>\<open>smtplib.SMTP\<close> object. \<open>Connect host port timeout\<close> is the
  constructor, \<open>Ehlo None\<close> is \<^verbatim>\<open>s.ehlo()\<close>, and \<open>Quit\<close> is what leaving the
  \<^verbatim>\<open>with\<close> block does (\<^verbatim>\<open>SMTP.__exit__\<close>).
\<close>

datatype smtp_call =
    Connect string int nat
  | Ehlo "string option"
  | StartTLS
  | Login string string
  | SendMail string "string list" bytes
  | Quit

text \<open>The calls to \<^verbatim>\<open>logging\<close>, by the place they are made at.\<close>

datatype log_entry =
    StoreFailed
  | DeliveryAttemptFailed string
  | UsingRelay string int string
  | DeliveredViaRelay string string
  | RelayFailed string string
  | AttemptingMX string string string
  | DeliveredViaMX string string
  | MXFailed string string exn

datatype event =
    MakeDirs
  | OpenWrite nat bytes
  | Resolve string
  | Smtp smtp_call
  | Log log_entry

text \<open>
  What \<^verbatim>\<open>open(path, "wb")\<close> followed by \<^verbatim>\<open>fh.write(content)\<close> and the close of the file
  did: the file holds the content, or an exception was raised and the path holds nothing
  (\<open>None\<close>, the open failed) or some bytes (the open succeeded and truncated the file).
\<close>

datatype write_outcome =
    Written
  | WriteFailed exn "bytes option"

record world =
  getenv :: "string \<Rightarrow> string option"
  int_of_str :: "string \<Rightarrow> int option"
  from_header :: "bytes \<Rightarrow> exn + string option"
  makedirs :: "event list \<Rightarrow> exn + unit"
  write_file :: "event list \<Rightarrow> nat \<Rightarrow> bytes \<Rightarrow> write_outcome"
  resolve_mx :: "event list \<Rightarrow> string \<Rightarrow> exn + (int \<times> string) list"
  smtp :: "event list \<Rightarrow> smtp_call \<Rightarrow> exn + unit"

text \<open>
  \<^item> \<open>getenv\<close> is \<^verbatim>\<open>os.getenv\<close>;
  \<^item> \<open>int_of_str\<close> is the builtin \<^verbatim>\<open>int\<close> on a \<^verbatim>\<open>str\<close>, \<open>None\<close> when it raises
    \<^verbatim>\<open>ValueError\<close>;
  \<^item> \<open>from_header c\<close> is \<^verbatim>\<open>email.message_from_bytes(c).get("From")\<close>: \<open>Inr None\<close> when
    there is no such header, \<open>Inl\<close> when the parser raises or the value is not a
    \<^verbatim>\<open>str\<close> (then the test \<^verbatim>\<open>"@" in frm\<close> raises);
  \<^item> \<open>makedirs\<close> is \<^verbatim>\<open>os.makedirs(MAIL_DIR, exist_ok=True)\<close>;
  \<^item> \<open>write_file h i c\<close> is the write of \<open>c\<close> to \<^verbatim>\<open>msg-<i>.eml\<close>;
  \<^item> \<open>resolve_mx h d\<close> is \<^verbatim>\<open>dns.resolver.resolve(d, "MX")\<close>, the answers as pairs of
    \<^verbatim>\<open>r.preference\<close> and \<^verbatim>\<open>str(r.exchange)\<close>;
  \<^item> \<open>smtp h c\<close> is one call on an \<^verbatim>\<open>smtplib.SMTP\<close> object.
\<close>

text \<open>
  The state of the handler: the files \<^verbatim>\<open>msg-<i>.eml\<close> of the mail directory, by their
  number, and the events so far.
\<close>

record state =
  files :: "(nat \<times> bytes) list"
  trace :: "event list"

subsection \<open>Python's string operations\<close>

text \<open>A value is true in a condition when it is neither \<^verbatim>\<open>None\<close> nor empty.\<close>

definition truthy :: "string option \<Rightarrow> bool" where
  "truthy v = (case v of None \<Rightarrow> False | Some s \<Rightarrow> s \<noteq> [])"

text \<open>The code points below 256 for which \<^verbatim>\<open>str.isspace\<close> holds.\<close>

definition is_space :: "char \<Rightarrow> bool" where
  "is_space c = (of_char c \<in> set [9, 10, 11, 12, 13, 28, 29, 30, 31, 32, 133, 160 :: nat])"

text \<open>\<^verbatim>\<open>s.split()\<close>: the maximal runs of characters that are not white space.\<close>

fun split_ws :: "string \<Rightarrow> string \<Rightarrow> string list" where
  "split_ws cur [] = (if cur = [] then [] else [cur])"
| "split_ws cur (c # cs) =
     (if is_space c then (if cur = [] then split_ws [] cs else cur # split_ws [] cs)
      else split_ws (cur @ [c]) cs)"

definition py_split :: "string \<Rightarrow> string list" where
  "py_split s = split_ws [] s"

text \<open>\<^verbatim>\<open>s.strip(chars)\<close> and \<^verbatim>\<open>s.rstrip(chars)\<close>.\<close>

definition py_rstrip :: "string \<Rightarrow> string \<Rightarrow> string" where
  "py_rstrip chars s = rev (dropWhile (\<lambda>c. c \<in> set chars) (rev s))"

definition py_strip :: "string \<Rightarrow> string \<Rightarrow> string" where
  "py_strip chars s = py_rstrip chars (dropWhile (\<lambda>c. c \<in> set chars) s)"

text \<open>\<^verbatim>\<open>s.split(sep, 1)\<close> for a separator of one character.\<close>

definition split_once :: "char \<Rightarrow> string \<Rightarrow> string list" where
  "split_once sep s =
     (case dropWhile (\<lambda>c. c \<noteq> sep) s of
        [] \<Rightarrow> [s]
      | _ # rest \<Rightarrow> [takeWhile (\<lambda>c. c \<noteq> sep) s, rest])"

text \<open>\<^verbatim>\<open>xs[i]\<close> for \<open>i \<ge> 0\<close> and \<^verbatim>\<open>xs[-1]\<close>, which raise out of range.\<close>

definition item :: "'a list \<Rightarrow> nat \<Rightarrow> exn + 'a" where
  "item xs i = (if i < length xs then Inr (xs ! i) else Inl IndexError)"

definition last_item :: "'a list \<Rightarrow> exn + 'a" where
  "last_item xs = (if xs = [] then Inl IndexError else Inr (last xs))"

subsection \<open>\<^verbatim>\<open>envelope_from\<close>\<close>

definition envelope_from :: "world \<Rightarrow> bytes \<Rightarrow> string" where
  "envelope_from w c =
     (let relay_user = getenv w ''SMTP_RELAY_USERNAME'' in
      if truthy relay_user then the relay_user
      else
        (case from_header w c of
           Inl _ \<Rightarrow> ''postmaster@localhost''
         | Inr None \<Rightarrow> ''postmaster@localhost''
         | Inr (Some frm) \<Rightarrow>
             if frm \<noteq> [] then
               (if CHR ''@'' \<in> set frm then
                  (case last_item (py_split frm) of
                     Inl _ \<Rightarrow> ''postmaster@localhost''
                   | Inr tok \<Rightarrow> py_strip [CHR ''<'', CHR ''>'', CHR 0x0A, CHR 0x0D] tok)
                else frm)
             else ''postmaster@localhost''))"

subsection \<open>The message store\<close>

text \<open>\<^verbatim>\<open>os.path.exists\<close> on \<^verbatim>\<open>msg-<i>.eml\<close>.\<close>

definition path_exists :: "(nat \<times> bytes) list \<Rightarrow> nat \<Rightarrow> bool" where
  "path_exists fs i = (map_of fs i \<noteq> None)"

lemma path_exists_le_sum: "path_exists fs i \<Longrightarrow> i \<le> sum_list (map fst fs)"
proof -
  assume "path_exists fs i"
  then have "i \<in> set (map fst fs)"
    by (auto simp: path_exists_def dest: map_of_SomeD intro: rev_image_eqI)
  then show ?thesis by (simp add: member_le_sum_list)
qed

text \<open>
  The loop at the head of \<^verbatim>\<open>handle_DATA\<close>, started with \<^verbatim>\<open>i = 1\<close>: it leaves at the
  first number whose path does not exist. The directory holds finitely many files, so
  the loop ends.
\<close>

function probe :: "(nat \<times> bytes) list \<Rightarrow> nat \<Rightarrow> nat" where
  "probe fs i = (if path_exists fs i then probe fs (Suc i) else i)"
  by pat_completeness auto
termination
  by (relation "measure (\<lambda>(fs, i). Suc (sum_list (map fst fs)) - i)")
     (auto dest: path_exists_le_sum)

declare probe.simps [simp del]

subsection \<open>SMTP sessions\<close>

text \<open>
  The body of a \<^verbatim>\<open>with smtplib.SMTP(...) as s:\<close> block is a sequence of calls on \<open>s\<close>;
  the first one that raises ends the body.
\<close>

fun run_calls :: "world \<Rightarrow> event list \<Rightarrow> smtp_call list \<Rightarrow> (exn + unit) \<times> event list" where
  "run_calls w h [] = (Inr (), h)"
| "run_calls w h (c # cs) =
     (case smtp w h c of
        Inl e \<Rightarrow> (Inl e, h @ [Smtp c])
      | Inr _ \<Rightarrow> run_calls w (h @ [Smtp c]) cs)"

text \<open>
  The \<^verbatim>\<open>with\<close> statement: when the constructor raises, nothing else happens; otherwise
  the body runs and \<^verbatim>\<open>__exit__\<close> is called whether the body raised or not. An exception
  of \<^verbatim>\<open>__exit__\<close> replaces the body's.
\<close>

definition smtp_session ::
  "world \<Rightarrow> event list \<Rightarrow> string \<Rightarrow> int \<Rightarrow> nat \<Rightarrow> smtp_call list \<Rightarrow> (exn + unit) \<times> event list" where
  "smtp_session w h host port tmo body =
     (case smtp w h (Connect host port tmo) of
        Inl e \<Rightarrow> (Inl e, h @ [Smtp (Connect host port tmo)])
      | Inr _ \<Rightarrow>
          (let (r, h1) = run_calls w (h @ [Smtp (Connect host port tmo)]) body in
           case smtp w h1 Quit of
             Inl e \<Rightarrow> (Inl e, h1 @ [Smtp Quit])
           | Inr _ \<Rightarrow> (r, h1 @ [Smtp Quit])))"

subsection \<open>\<^verbatim>\<open>_get_mx_hosts\<close>\<close>

text \<open>
  \<^verbatim>\<open>sorted\<close> on a list of pairs compares the preferences first and the host names when
  the preferences are equal; strings compare by code points, a proper prefix first.
  These are the orders of the library theories \<^verbatim>\<open>Product_Lexorder\<close>,
  \<^verbatim>\<open>List_Lexorder\<close> and \<^verbatim>\<open>Char_ord\<close>. The order is
  total, so the sorted list is unique and \<open>sort\<close> computes it.
\<close>

definition mx_pairs :: "(int \<times> string) list \<Rightarrow> (int \<times> string) list" where
  "mx_pairs answers = map (\<lambda>(p, x). (p, py_rstrip ''.'' x)) answers"

definition get_mx_hosts :: "world \<Rightarrow> event list \<Rightarrow> string \<Rightarrow> (exn + string list) \<times> event list" where
  "get_mx_hosts w h domain =
     (case resolve_mx w h domain of
        Inl e \<Rightarrow> (Inl e, h @ [Resolve domain])
      | Inr answers \<Rightarrow> (Inr (map snd (sort (mx_pairs answers))), h @ [Resolve domain]))"

subsection \<open>\<^verbatim>\<open>_deliver_to_recipient\<close>\<close>

text \<open>
  \<^verbatim>\<open>int(os.getenv("SMTP_RELAY_PORT")) if os.getenv("SMTP_RELAY_PORT") else 0\<close>
\<close>

definition relay_port :: "world \<Rightarrow> exn + int" where
  "relay_port w =
     (if truthy (getenv w ''SMTP_RELAY_PORT'') then
        (case int_of_str w (the (getenv w ''SMTP_RELAY_PORT'')) of
           None \<Rightarrow> Inl ValueError
         | Some n \<Rightarrow> Inr n)
      else Inr 0)"

text \<open>\<^verbatim>\<open>os.getenv("SMTP_RELAY_STARTTLS", "1") in ("1", "true", "True")\<close>\<close>

definition relay_starttls :: "world \<Rightarrow> bool" where
  "relay_starttls w =
     ((case getenv w ''SMTP_RELAY_STARTTLS'' of None \<Rightarrow> ''1'' | Some v \<Rightarrow> v)
        \<in> set [''1'', ''true'', ''True''])"

text \<open>The calls inside the \<^verbatim>\<open>with\<close> block of the relay.\<close>

definition relay_calls :: "world \<Rightarrow> string \<Rightarrow> bytes \<Rightarrow> smtp_call list" where
  "relay_calls w rcpt c =
     (let relay_user = getenv w ''SMTP_RELAY_USERNAME'';
          relay_pass = getenv w ''SMTP_RELAY_PASSWORD''
      in [Ehlo (Some ''local-relay'')]
         @ (if relay_starttls w then [StartTLS, Ehlo None] else [])
         @ (if truthy relay_user \<and> truthy relay_pass
            then [Login (the relay_user) (the relay_pass)] else [])
         @ [SendMail (envelope_from w c) [rcpt] c])"

text \<open>The loop over the MX hosts; \<open>last_exc\<close> is the variable of that name.\<close>

fun mx_loop ::
  "world \<Rightarrow> event list \<Rightarrow> string \<Rightarrow> string \<Rightarrow> bytes \<Rightarrow> string list \<Rightarrow> exn option
     \<Rightarrow> (exn + unit) \<times> event list" where
  "mx_loop w h rcpt domain c [] last_exc =
     (Inl (case last_exc of None \<Rightarrow> RuntimeError ''MX delivery failed'' | Some e \<Rightarrow> e), h)"
| "mx_loop w h rcpt domain c (host # hosts) last_exc =
     (case smtp_session w (h @ [Log (AttemptingMX rcpt domain host)]) host 25 30
             [Ehlo (Some ''local-relay''), SendMail (envelope_from w c) [rcpt] c] of
        (Inr _, h1) \<Rightarrow> (Inr (), h1 @ [Log (DeliveredViaMX rcpt host)])
      | (Inl e, h1) \<Rightarrow>
          mx_loop w (h1 @ [Log (MXFailed rcpt host e)]) rcpt domain c hosts (Some e))"

text \<open>
  The part of \<^verbatim>\<open>_deliver_to_recipient\<close> after the comment
  \<^verbatim>\<open># Fallback to direct MX delivery\<close>.
\<close>

definition mx_fallback :: "world \<Rightarrow> event list \<Rightarrow> string \<Rightarrow> bytes \<Rightarrow> (exn + unit) \<times> event list" where
  "mx_fallback w h rcpt c =
     (case item (split_once CHR ''@'' rcpt) 1 of
        Inl e \<Rightarrow> (Inl e, h)
      | Inr domain \<Rightarrow>
          (case get_mx_hosts w h domain of
             (Inl e, h1) \<Rightarrow> (Inl e, h1)
           | (Inr mx_hosts, h1) \<Rightarrow>
               if mx_hosts = [] then (Inl (RuntimeError (''No MX hosts found for '' @ domain)), h1)
               else mx_loop w h1 rcpt domain c mx_hosts None))"

definition deliver_to_recipient ::
  "world \<Rightarrow> event list \<Rightarrow> string \<Rightarrow> bytes \<Rightarrow> (exn + unit) \<times> event list" where
  "deliver_to_recipient w h rcpt c =
     (let relay_host = getenv w ''SMTP_RELAY_SERVER'' in
      case relay_port w of
        Inl e \<Rightarrow> (Inl e, h)
      | Inr rport \<Rightarrow>
          if truthy relay_host then
            (let port = (if rport \<noteq> 0 then rport else 587) in
             case smtp_session w (h @ [Log (UsingRelay (the relay_host) port rcpt)])
                    (the relay_host) port 60 (relay_calls w rcpt c) of
               (Inr _, h1) \<Rightarrow> (Inr (), h1 @ [Log (DeliveredViaRelay rcpt (the relay_host))])
             | (Inl e, h1) \<Rightarrow>
                 mx_fallback w (h1 @ [Log (RelayFailed rcpt (the relay_host))]) rcpt c)
          else mx_fallback w h rcpt c)"

subsection \<open>\<^verbatim>\<open>handle_DATA\<close>\<close>

text \<open>The loop over \<^verbatim>\<open>envelope.rcpt_tos\<close>, which catches what a delivery raises.\<close>

fun deliver_all :: "world \<Rightarrow> event list \<Rightarrow> string list \<Rightarrow> bytes \<Rightarrow> event list" where
  "deliver_all w h [] c = h"
| "deliver_all w h (rcpt # rcpts) c =
     (case deliver_to_recipient w h rcpt c of
        (Inr _, h1) \<Rightarrow> deliver_all w h1 rcpts c
      | (Inl e, h1) \<Rightarrow> deliver_all w (h1 @ [Log (DeliveryAttemptFailed rcpt)]) rcpts c)"

text \<open>
  The result is the reply, or the exception that leaves \<^verbatim>\<open>handle_DATA\<close>
  (\<^verbatim>\<open>os.makedirs\<close> is called outside every \<^verbatim>\<open>try\<close>).
\<close>

definition handle_DATA :: "world \<Rightarrow> envelope \<Rightarrow> state \<Rightarrow> (exn + string) \<times> state" where
  "handle_DATA w e s =
     (let h0 = trace s @ [MakeDirs] in
      case makedirs w (trace s) of
        Inl x \<Rightarrow> (Inl x, s\<lparr>trace := h0\<rparr>)
      | Inr _ \<Rightarrow>
          (let i = probe (files s) 1;
               h1 = h0 @ [OpenWrite i (content e)]
           in case write_file w h0 i (content e) of
                WriteFailed x left \<Rightarrow>
                  (Inr ''451 Could not store message'',
                   \<lparr>files = (case left of None \<Rightarrow> files s
                             | Some b \<Rightarrow> AList.update i b (files s)),
                    trace = h1 @ [Log StoreFailed]\<rparr>)
              | Written \<Rightarrow>
                  (Inr ''250 Message accepted for delivery'',
                   \<lparr>files = AList.update i (content e) (files s),
                    trace = deliver_all w h1 (rcpt_tos e) (content e)\<rparr>)))"

subsection \<open>Observations on the events\<close>

text \<open>
  The events of the storing of a message, and the events of its delivery: DNS queries,
  SMTP calls and the log lines of \<^verbatim>\<open>_deliver_to_recipient\<close> and of the loop over the
  recipients.
\<close>

fun is_store :: "event \<Rightarrow> bool" where
  "is_store MakeDirs = True"
| "is_store (OpenWrite _ _) = True"
| "is_store (Log l) = (l = StoreFailed)"
| "is_store _ = False"

fun is_delivery :: "event \<Rightarrow> bool" where
  "is_delivery (Resolve _) = True"
| "is_delivery (Smtp _) = True"
| "is_delivery (Log l) = (l \<noteq> StoreFailed)"
| "is_delivery _ = False"

text \<open>The numbers of the files opened for writing, in the order of the events.\<close>

fun written_ids :: "event list \<Rightarrow> nat list" where
  "written_ids [] = []"
| "written_ids (OpenWrite i c # evs) = i # written_ids evs"
| "written_ids (ev # evs) = written_ids evs"

text \<open>
  The hosts and ports connections were opened to, the domains the resolver was asked
  for, the hosts of the log lines \<^verbatim>\<open>Delivered message to ... via ...\<close> of the MX loop,
  and the hosts of its log lines \<^verbatim>\<open>Delivery to ... via ... failed\<close>, each in the order
  of the events.
\<close>

fun connect_targets :: "event list \<Rightarrow> (string \<times> int) list" where
  "connect_targets [] = []"
| "connect_targets (Smtp (Connect host port tmo) # evs) = (host, port) # connect_targets evs"
| "connect_targets (ev # evs) = connect_targets evs"

fun resolved :: "event list \<Rightarrow> string list" where
  "resolved [] = []"
| "resolved (Resolve d # evs) = d # resolved evs"
| "resolved (ev # evs) = resolved evs"

fun delivered_via :: "event list \<Rightarrow> string list" where
  "delivered_via [] = []"
| "delivered_via (Log (DeliveredViaMX rcpt host) # evs) = host # delivered_via evs"
| "delivered_via (ev # evs) = delivered_via evs"

fun failed_via :: "event list \<Rightarrow> string list" where
  "failed_via [] = []"
| "failed_via (Log (MXFailed rcpt host e) # evs) = host # failed_via evs"
| "failed_via (ev # evs) = failed_via evs"

text \<open>
  The events inside a session: the calls on the SMTP object after its construction.
\<close>

fun is_connect :: "smtp_call \<Rightarrow> bool" where
  "is_connect (Connect _ _ _) = True"
| "is_connect _ = False"

fun in_session :: "event \<Rightarrow> bool" where
  "in_session (Smtp c) = (\<not> is_connect c)"
| "in_session _ = False"

text \<open>
  The message was stored: \<^verbatim>\<open>os.makedirs\<close> returned and the write of the content to the
  path the loop chose succeeded.
\<close>

definition stored :: "world \<Rightarrow> envelope \<Rightarrow> state \<Rightarrow> bool" where
  "stored w e s =
     (makedirs w (trace s) = Inr () \<and>
      write_file w (trace s @ [MakeDirs]) (probe (files s) 1) (content e) = Written)"

text \<open>
  The body of the loop over the recipients: the delivery to one recipient and, when it
  raises, the log line of the handler. The result is the events so far.
\<close>

definition attempt :: "world \<Rightarrow> event list \<Rightarrow> string \<Rightarrow> bytes \<Rightarrow> event list" where
  "attempt w h rcpt c =
     (case deliver_to_recipient w h rcpt c of
        (Inr _, h1) \<Rightarrow> h1
      | (Inl e, h1) \<Rightarrow> h1 @ [Log (DeliveryAttemptFailed rcpt)])"

text \<open>
  One thread receiving messages one after the other: \<^verbatim>\<open>handle_DATA\<close> is called once
  per message, on the state the call before left.
\<close>

fun sessions :: "world \<Rightarrow> envelope list \<Rightarrow> state \<Rightarrow> (exn + string) list \<times> state" where
  "sessions w [] s = ([], s)"
| "sessions w (e # es) s =
     (case handle_DATA w e s of
        (r, s1) \<Rightarrow> (case sessions w es s1 of (rs, s2) \<Rightarrow> (r # rs, s2)))"

text \<open>
  A world that answers a DNS query and an SMTP call by the request alone, whatever
  happened before; and a result whose events are moved behind the events \<open>h\<close>.
\<close>

definition history_free :: "world \<Rightarrow> bool" where
  "history_free w =
     ((\<forall>h d. resolve_mx w h d = resolve_mx w [] d) \<and> (\<forall>h c. smtp w h c = smtp w [] c))"

definition shift :: "event list \<Rightarrow> 'a \<times> event list \<Rightarrow> 'a \<times> event list" where
  "shift h p = (fst p, h @ snd p)"

subsection \<open>The words of the specification\<close>

text \<open>
  Three definitions that follow the specification instead of the source, to compare the
  source with. ``The last whitespace-delimited token'': drop the white space at the end,
  then take the characters back to the next white space.
\<close>

definition spec_last_token :: "string \<Rightarrow> string" where
  "spec_last_token s = rev (takeWhile (\<lambda>c. \<not> is_space c) (dropWhile is_space (rev s)))"

text \<open>
  ``With surrounding angle brackets stripped'': the characters \<^verbatim>\<open><\<close> and \<^verbatim>\<open>>\<close>
  removed at both ends.
\<close>

definition spec_strip_brackets :: "string \<Rightarrow> string" where
  "spec_strip_brackets t =
     rev (dropWhile (\<lambda>c. c = CHR ''<'' \<or> c = CHR ''>'')
       (rev (dropWhile (\<lambda>c. c = CHR ''<'' \<or> c = CHR ''>'') t)))"

text \<open>
  ``Ascending by preference value; ties use resolver-native order'': the hosts in
  ascending order of preference, records of equal preference in the order the resolver
  returned them (\<open>sort_key\<close> is stable).
\<close>

definition spec_mx_order :: "(int \<times> string) list \<Rightarrow> string list" where
  "spec_mx_order answers = map snd (sort_key fst (mx_pairs answers))"

subsection \<open>Example worlds\<close>

text \<open>
  Three messages: one with the header \<^verbatim>\<open>From: Alice <alice@example.com>\<close> for two
  recipients, the same for a first recipient without \<^verbatim>\<open>@\<close>, and the content of one
  with the header \<^verbatim>\<open>From: Alice\<close>.
\<close>

definition example_content :: bytes where
  "example_content =
     ''From: Alice <alice@example.com>'' @ [CHR 0x0A] @ ''Subject: hi'' @ [CHR 0x0A, CHR 0x0A]
       @ ''hello'' @ [CHR 0x0A]"

definition example_envelope :: envelope where
  "example_envelope =
     \<lparr>mail_from = ''alice@example.com'',
      rcpt_tos = [''a@nomx.test'', ''b@hasmx.test''],
      content = example_content\<rparr>"

definition nodomain_envelope :: envelope where
  "nodomain_envelope =
     \<lparr>mail_from = ''alice@example.com'',
      rcpt_tos = [''nodomain'', ''b@hasmx.test''],
      content = example_content\<rparr>"

definition alice_content :: bytes where
  "alice_content = ''From: Alice'' @ [CHR 0x0A, CHR 0x0A] @ ''hello'' @ [CHR 0x0A]"

text \<open>
  In \<open>direct_world\<close> no relay is configured, the domain \<^verbatim>\<open>nomx.test\<close> does not
  resolve, \<^verbatim>\<open>hasmx.test\<close> has two MX records, the host \<^verbatim>\<open>mx2.example\<close> refuses
  connections and every other SMTP call succeeds. The only text that occurs as a port
  is \<^verbatim>\<open>2525\<close>, which \<^verbatim>\<open>int\<close> reads as 2525; on the other texts of the examples
  (\<^verbatim>\<open>abc\<close>) it raises.
\<close>

definition direct_world :: world where
  "direct_world =
     \<lparr>getenv = (\<lambda>_. None),
      int_of_str = (\<lambda>s. if s = ''2525'' then Some 2525 else None),
      from_header = (\<lambda>c. if c = example_content then Inr (Some ''Alice <alice@example.com>'')
                          else Inr None),
      makedirs = (\<lambda>_. Inr ()),
      write_file = (\<lambda>_ _ _. Written),
      resolve_mx = (\<lambda>_ d. if d = ''hasmx.test''
                           then Inr [(10, ''mx1.example.''), (5, ''mx2.example.'')]
                           else Inl (LibraryError ''NXDOMAIN'')),
      smtp = (\<lambda>_ c. case c of
                Connect host _ _ \<Rightarrow> if host = ''mx2.example''
                                     then Inl (LibraryError ''ConnectionRefusedError'')
                                     else Inr ()
              | _ \<Rightarrow> Inr ())\<rparr>"

text \<open>
  The other worlds differ from \<open>direct_world\<close> in one respect each. In
  \<open>full_disk_world\<close> the write of a message fails after the file was created. In
  \<open>no_mx_world\<close> the resolver answers every query with no record at all. In
  \<open>tie_world\<close> every domain has two MX records of the same preference, which the
  resolver returns with \<^verbatim>\<open>b.example\<close> first. In \<open>alice_world\<close> the parser reads the
  header of \<open>alice_content\<close>.
\<close>

definition full_disk_world :: world where
  "full_disk_world =
     direct_world\<lparr>write_file := (\<lambda>_ _ _. WriteFailed (LibraryError ''OSError'') (Some []))\<rparr>"

definition no_mx_world :: world where
  "no_mx_world = direct_world\<lparr>resolve_mx := (\<lambda>_ _. Inr [])\<rparr>"

definition tie_world :: world where
  "tie_world =
     direct_world\<lparr>resolve_mx := (\<lambda>_ _. Inr [(10, ''b.example.''), (10, ''a.example.'')])\<rparr>"

definition alice_world :: world where
  "alice_world =
     direct_world\<lparr>from_header :=
        (\<lambda>c. if c = alice_content then Inr (Some ''Alice'') else Inr None)\<rparr>"

text \<open>
  In \<open>relay_world\<close> a relay with a user name and a password is configured and no port
  is set. In \<open>relay_down_world\<close> a relay on port 2525 without STARTTLS and without
  credentials is configured and refuses connections, as \<^verbatim>\<open>mx2.example\<close> does. In
  \<open>bad_port_world\<close> the relay host is set and the port setting is the text \<^verbatim>\<open>abc\<close>.
\<close>

definition relay_world :: world where
  "relay_world =
     direct_world\<lparr>getenv := map_of
        [(''SMTP_RELAY_SERVER'', ''smtp.gmail.com''),
         (''SMTP_RELAY_USERNAME'', ''relay@x.com''),
         (''SMTP_RELAY_PASSWORD'', ''app-password'')]\<rparr>"

definition relay_down_world :: world where
  "relay_down_world =
     direct_world\<lparr>
       getenv := map_of
         [(''SMTP_RELAY_SERVER'', ''smtp.relay.test''),
          (''SMTP_RELAY_PORT'', ''2525''),
          (''SMTP_RELAY_STARTTLS'', ''0'')],
       smtp := (\<lambda>_ c. case c of
                  Connect host _ _ \<Rightarrow>
                    if host = ''smtp.relay.test'' \<or> host = ''mx2.example''
                    then Inl (LibraryError ''ConnectionRefusedError'')
                    else Inr ()
                | _ \<Rightarrow> Inr ())\<rparr>"

definition bad_port_world :: world where
  "bad_port_world =
     relay_world\<lparr>getenv := map_of
        [(''SMTP_RELAY_SERVER'', ''smtp.gmail.com''),
         (''SMTP_RELAY_PORT'', ''abc'')]\<rparr>"

text \<open>
  An empty mail directory, and one that holds \<^verbatim>\<open>msg-1.eml\<close> and \<^verbatim>\<open>msg-3.eml\<close>.
\<close>

definition empty_state :: state where
  "empty_state = \<lparr>files = [], trace = []\<rparr>"

definition gap_state :: state where
  "gap_state = \<lparr>files = [(1, ''first''), (3, ''third'')], trace = []\<rparr>"

text \<open>
  In \<open>no_dir_world\<close> the mail directory cannot be created.
\<close>

definition no_dir_world :: world where
  "no_dir_world = direct_world\<lparr>makedirs := (\<lambda>_. Inl (LibraryError ''PermissionError''))\<rparr>"

section \<open>Properties\<close>

subsection \<open>The store\<close>

lemma probe_ge: "i \<le> probe fs i"
proof (induction fs i rule: probe.induct)
  case (1 fs i)
  show ?case
  proof (cases "path_exists fs i")
    case True
    with 1 have "Suc i \<le> probe fs (Suc i)" by simp
    with True show ?thesis by (simp add: probe.simps [of fs i])
  next
    case False
    then show ?thesis by (simp add: probe.simps [of fs i])
  qed
qed

lemma probe_free: "\<not> path_exists fs (probe fs i)"
proof (induction fs i rule: probe.induct)
  case (1 fs i)
  then show ?case by (cases "path_exists fs i") (simp_all add: probe.simps [of fs i])
qed

lemma probe_below: "i \<le> j \<Longrightarrow> j < probe fs i \<Longrightarrow> path_exists fs j"
proof (induction fs i rule: probe.induct)
  case (1 fs i)
  show ?case
  proof (cases "path_exists fs i")
    case True
    show ?thesis
    proof (cases "j = i")
      case True
      with \<open>path_exists fs i\<close> show ?thesis by simp
    next
      case False
      with 1 True show ?thesis by (simp add: probe.simps [of fs i])
    qed
  next
    case False
    with 1 show ?thesis by (simp add: probe.simps [of fs i])
  qed
qed

subsection \<open>Delivery appends delivery events only\<close>

lemma run_calls_ext: "\<exists>evs. snd (run_calls w h cs) = h @ evs \<and> list_all is_delivery evs"
proof (induction cs arbitrary: h)
  case Nil
  then show ?case by simp
next
  case (Cons c cs)
  show ?case
  proof (cases "smtp w h c")
    case (Inl e)
    then show ?thesis by simp
  next
    case (Inr u)
    from Cons [of "h @ [Smtp c]"] obtain evs where
      "snd (run_calls w (h @ [Smtp c]) cs) = (h @ [Smtp c]) @ evs" "list_all is_delivery evs"
      by blast
    with Inr show ?thesis by simp
  qed
qed

lemma smtp_session_ext:
  "\<exists>evs. snd (smtp_session w h host port tmo body) = h @ evs \<and> list_all is_delivery evs"
proof (cases "smtp w h (Connect host port tmo)")
  case (Inl e)
  then show ?thesis by (simp add: smtp_session_def)
next
  case (Inr u)
  obtain r h1 where rc: "run_calls w (h @ [Smtp (Connect host port tmo)]) body = (r, h1)"
    by (cases "run_calls w (h @ [Smtp (Connect host port tmo)]) body")
  from run_calls_ext [of w "h @ [Smtp (Connect host port tmo)]" body] rc obtain evs where
    "h1 = (h @ [Smtp (Connect host port tmo)]) @ evs" "list_all is_delivery evs"
    by auto
  with Inr rc show ?thesis
    by (cases "smtp w h1 Quit") (simp_all add: smtp_session_def)
qed

lemma get_mx_hosts_ext: "snd (get_mx_hosts w h d) = h @ [Resolve d]"
  by (simp add: get_mx_hosts_def split: sum.splits)

lemma mx_loop_ext:
  "\<exists>evs. snd (mx_loop w h rcpt d c hosts le) = h @ evs \<and> list_all is_delivery evs"
proof (induction hosts arbitrary: h le)
  case Nil
  then show ?case by simp
next
  case (Cons host hosts)
  let ?h0 = "h @ [Log (AttemptingMX rcpt d host)]"
  let ?body = "[Ehlo (Some ''local-relay''), SendMail (envelope_from w c) [rcpt] c]"
  obtain r h1 where ses: "smtp_session w ?h0 host 25 30 ?body = (r, h1)"
    by (cases "smtp_session w ?h0 host 25 30 ?body")
  from smtp_session_ext [of w ?h0 host 25 30 ?body] ses obtain evs where
    h1: "h1 = ?h0 @ evs" and evs: "list_all is_delivery evs"
    by auto
  show ?case
  proof (cases r)
    case (Inr u)
    with ses h1 evs show ?thesis by simp
  next
    case (Inl e)
    from Cons [of "h1 @ [Log (MXFailed rcpt host e)]" "Some e"] obtain evs' where
      "snd (mx_loop w (h1 @ [Log (MXFailed rcpt host e)]) rcpt d c hosts (Some e))
         = (h1 @ [Log (MXFailed rcpt host e)]) @ evs'" "list_all is_delivery evs'"
      by blast
    with Inl ses h1 evs show ?thesis by simp
  qed
qed

lemma mx_fallback_ext:
  "\<exists>evs. snd (mx_fallback w h rcpt c) = h @ evs \<and> list_all is_delivery evs"
proof (cases "item (split_once CHR ''@'' rcpt) 1")
  case (Inl e)
  then show ?thesis by (simp add: mx_fallback_def)
next
  case (Inr d)
  obtain r h1 where g: "get_mx_hosts w h d = (r, h1)"
    by (cases "get_mx_hosts w h d")
  with get_mx_hosts_ext [of w h d] have h1: "h1 = h @ [Resolve d]" by simp
  show ?thesis
  proof (cases r)
    case (Inl e)
    with Inr g h1 show ?thesis by (simp add: mx_fallback_def)
  next
    case hosts: (Inr hosts)
    show ?thesis
    proof (cases "hosts = []")
      case True
      with Inr g h1 hosts show ?thesis by (simp add: mx_fallback_def)
    next
      case False
      from mx_loop_ext [of w h1 rcpt d c hosts None] obtain evs where
        "snd (mx_loop w h1 rcpt d c hosts None) = h1 @ evs" "list_all is_delivery evs"
        by blast
      with False Inr g h1 hosts show ?thesis by (simp add: mx_fallback_def)
    qed
  qed
qed

lemma deliver_port_error:
  "relay_port w = Inl e \<Longrightarrow> deliver_to_recipient w h rcpt c = (Inl e, h)"
  by (simp add: deliver_to_recipient_def)

lemma deliver_no_relay:
  "relay_port w = Inr p \<Longrightarrow> \<not> truthy (getenv w ''SMTP_RELAY_SERVER'')
    \<Longrightarrow> deliver_to_recipient w h rcpt c = mx_fallback w h rcpt c"
  by (simp add: deliver_to_recipient_def)

lemma deliver_relay_ok:
  "relay_port w = Inr p \<Longrightarrow> truthy (getenv w ''SMTP_RELAY_SERVER'')
    \<Longrightarrow> smtp_session w
          (h @ [Log (UsingRelay (the (getenv w ''SMTP_RELAY_SERVER'')) (if p \<noteq> 0 then p else 587) rcpt)])
          (the (getenv w ''SMTP_RELAY_SERVER'')) (if p \<noteq> 0 then p else 587) 60
          (relay_calls w rcpt c) = (Inr u, h1)
    \<Longrightarrow> deliver_to_recipient w h rcpt c
          = (Inr (), h1 @ [Log (DeliveredViaRelay rcpt (the (getenv w ''SMTP_RELAY_SERVER'')))])"
  by (simp add: deliver_to_recipient_def Let_def)

lemma deliver_relay_failed:
  "relay_port w = Inr p \<Longrightarrow> truthy (getenv w ''SMTP_RELAY_SERVER'')
    \<Longrightarrow> smtp_session w
          (h @ [Log (UsingRelay (the (getenv w ''SMTP_RELAY_SERVER'')) (if p \<noteq> 0 then p else 587) rcpt)])
          (the (getenv w ''SMTP_RELAY_SERVER'')) (if p \<noteq> 0 then p else 587) 60
          (relay_calls w rcpt c) = (Inl e, h1)
    \<Longrightarrow> deliver_to_recipient w h rcpt c
          = mx_fallback w (h1 @ [Log (RelayFailed rcpt (the (getenv w ''SMTP_RELAY_SERVER'')))]) rcpt c"
  by (simp add: deliver_to_recipient_def Let_def)

lemma deliver_to_recipient_ext:
  "\<exists>evs. snd (deliver_to_recipient w h rcpt c) = h @ evs \<and> list_all is_delivery evs"
proof (cases "relay_port w")
  case (Inl e)
  then show ?thesis by (simp add: deliver_to_recipient_def)
next
  case (Inr rport)
  show ?thesis
  proof (cases "truthy (getenv w ''SMTP_RELAY_SERVER'')")
    case False
    with Inr mx_fallback_ext [of w h rcpt c] show ?thesis
      by (simp add: deliver_no_relay)
  next
    case True
    define host where "host = the (getenv w ''SMTP_RELAY_SERVER'')"
    define port where "port = (if rport \<noteq> 0 then rport else 587)"
    let ?h0 = "h @ [Log (UsingRelay host port rcpt)]"
    obtain r h1 where ses0: "smtp_session w ?h0 host port 60 (relay_calls w rcpt c) = (r, h1)"
      by (cases "smtp_session w ?h0 host port 60 (relay_calls w rcpt c)")
    then have ses: "smtp_session w
          (h @ [Log (UsingRelay (the (getenv w ''SMTP_RELAY_SERVER'')) (if rport \<noteq> 0 then rport else 587) rcpt)])
          (the (getenv w ''SMTP_RELAY_SERVER'')) (if rport \<noteq> 0 then rport else 587) 60
          (relay_calls w rcpt c) = (r, h1)"
      by (simp only: host_def port_def)
    from smtp_session_ext [of w ?h0 host port 60 "relay_calls w rcpt c"] ses0 obtain evs where
      h1: "h1 = ?h0 @ evs" and evs: "list_all is_delivery evs"
      by auto
    show ?thesis
    proof (cases r)
      case u: (Inr u)
      with ses have "deliver_to_recipient w h rcpt c = (Inr (), h1 @ [Log (DeliveredViaRelay rcpt host)])"
        using deliver_relay_ok [OF Inr True] by (simp add: host_def)
      with h1 evs show ?thesis by simp
    next
      case (Inl e)
      from mx_fallback_ext [of w "h1 @ [Log (RelayFailed rcpt host)]" rcpt c] obtain evs' where
        "snd (mx_fallback w (h1 @ [Log (RelayFailed rcpt host)]) rcpt c)
           = (h1 @ [Log (RelayFailed rcpt host)]) @ evs'" "list_all is_delivery evs'"
        by blast
      moreover from Inl ses have "deliver_to_recipient w h rcpt c
          = mx_fallback w (h1 @ [Log (RelayFailed rcpt host)]) rcpt c"
        using deliver_relay_failed [OF Inr True] by (simp add: host_def)
      ultimately show ?thesis using h1 evs by simp
    qed
  qed
qed

lemma deliver_all_ext:
  "\<exists>evs. deliver_all w h rcpts c = h @ evs \<and> list_all is_delivery evs"
proof (induction rcpts arbitrary: h)
  case Nil
  then show ?case by simp
next
  case (Cons rcpt rcpts)
  obtain r h1 where d: "deliver_to_recipient w h rcpt c = (r, h1)"
    by (cases "deliver_to_recipient w h rcpt c")
  from deliver_to_recipient_ext [of w h rcpt c] d obtain evs where
    h1: "h1 = h @ evs" and evs: "list_all is_delivery evs"
    by auto
  show ?case
  proof (cases r)
    case (Inr u)
    from Cons [of h1] obtain evs' where
      "deliver_all w h1 rcpts c = h1 @ evs'" "list_all is_delivery evs'" by blast
    with Inr d h1 evs show ?thesis by simp
  next
    case (Inl e)
    from Cons [of "h1 @ [Log (DeliveryAttemptFailed rcpt)]"] obtain evs' where
      "deliver_all w (h1 @ [Log (DeliveryAttemptFailed rcpt)]) rcpts c
         = (h1 @ [Log (DeliveryAttemptFailed rcpt)]) @ evs'" "list_all is_delivery evs'"
      by blast
    with Inl d h1 evs show ?thesis by simp
  qed
qed

subsection \<open>The three ways through \<^verbatim>\<open>handle_DATA\<close>\<close>

lemma handle_DATA_nodir:
  "makedirs w (trace s) = Inl x \<Longrightarrow> handle_DATA w e s = (Inl x, s\<lparr>trace := trace s @ [MakeDirs]\<rparr>)"
  by (simp add: handle_DATA_def)

lemma handle_DATA_failed:
  "makedirs w (trace s) = Inr u
    \<Longrightarrow> write_file w (trace s @ [MakeDirs]) (probe (files s) 1) (content e) = WriteFailed x left
    \<Longrightarrow> handle_DATA w e s =
          (Inr ''451 Could not store message'',
           \<lparr>files = (case left of None \<Rightarrow> files s
                     | Some b \<Rightarrow> AList.update (probe (files s) 1) b (files s)),
            trace = trace s @ [MakeDirs, OpenWrite (probe (files s) 1) (content e), Log StoreFailed]\<rparr>)"
  by (simp add: handle_DATA_def Let_def split: option.splits)

lemma handle_DATA_stored:
  "makedirs w (trace s) = Inr u
    \<Longrightarrow> write_file w (trace s @ [MakeDirs]) (probe (files s) 1) (content e) = Written
    \<Longrightarrow> handle_DATA w e s =
          (Inr ''250 Message accepted for delivery'',
           \<lparr>files = AList.update (probe (files s) 1) (content e) (files s),
            trace = deliver_all w (trace s @ [MakeDirs, OpenWrite (probe (files s) 1) (content e)])
                      (rcpt_tos e) (content e)\<rparr>)"
  by (simp add: handle_DATA_def Let_def)

lemma handle_DATA_cases:
  obtains (nodir) x where "makedirs w (trace s) = Inl x"
  | (failed) x left where "makedirs w (trace s) = Inr ()"
      "write_file w (trace s @ [MakeDirs]) (probe (files s) 1) (content e) = WriteFailed x left"
  | (stored) "makedirs w (trace s) = Inr ()"
      "write_file w (trace s @ [MakeDirs]) (probe (files s) 1) (content e) = Written"
proof (cases "makedirs w (trace s)")
  case (Inl x)
  then show ?thesis by (rule nodir)
next
  case (Inr u)
  then have m: "makedirs w (trace s) = Inr ()" by simp
  show ?thesis
  proof (cases "write_file w (trace s @ [MakeDirs]) (probe (files s) 1) (content e)")
    case Written
    with m show ?thesis by (rule stored)
  next
    case (WriteFailed x left)
    with m show ?thesis by (rule failed)
  qed
qed

lemma handle_DATA_accepted:
  assumes "fst (handle_DATA w e s) = Inr ''250 Message accepted for delivery''"
  shows "makedirs w (trace s) = Inr () \<and>
         write_file w (trace s @ [MakeDirs]) (probe (files s) 1) (content e) = Written"
proof (cases rule: handle_DATA_cases [where w = w and s = s and e = e])
  case (nodir x)
  with assms show ?thesis by (simp add: handle_DATA_nodir)
next
  case (failed x left)
  with assms show ?thesis by (simp add: handle_DATA_failed)
next
  case stored
  then show ?thesis by simp
qed

subsection \<open>The reply\<close>

text \<open>
  Claim C1. The reply to DATA depends on the storing alone. Whatever the environment,
  the header parser, the resolver and the SMTP servers do (the fields \<open>g\<close>, \<open>n\<close>,
  \<open>f\<close>, \<open>r\<close>, \<open>m\<close> put in their place), and whoever the recipients \<open>rs\<close> are:
  when the write of the content succeeds the reply is
  \<^verbatim>\<open>250 Message accepted for delivery\<close>, when the write raises the reply is
  \<^verbatim>\<open>451 Could not store message\<close>. The write is reached when \<^verbatim>\<open>os.makedirs\<close>
  returns; an exception of \<^verbatim>\<open>os.makedirs\<close> leaves the handler, again whatever the
  deliveries would do.
\<close>

theorem reply_determined_by_storage:
  "fst (handle_DATA (w\<lparr>getenv := g, int_of_str := n, from_header := f, resolve_mx := r, smtp := m\<rparr>)
          (e\<lparr>rcpt_tos := rs\<rparr>) s) =
     (case makedirs w (trace s) of
        Inl x \<Rightarrow> Inl x
      | Inr _ \<Rightarrow>
          (case write_file w (trace s @ [MakeDirs]) (probe (files s) 1) (content e) of
             Written \<Rightarrow> Inr ''250 Message accepted for delivery''
           | WriteFailed x left \<Rightarrow> Inr ''451 Could not store message''))"
  by (simp add: handle_DATA_def Let_def split: sum.splits write_outcome.splits)

subsection \<open>Storing comes first\<close>

lemma is_store_not_delivery: "is_store ev \<Longrightarrow> \<not> is_delivery ev"
  by (cases ev) auto

text \<open>
  Claim C2. The events \<^verbatim>\<open>handle_DATA\<close> adds are the events of the storing followed by
  the events of the deliveries: the write of the content has returned or raised before
  the first event of any delivery. When the message was not stored (\<^verbatim>\<open>os.makedirs\<close> or
  the write raised) there is no delivery event at all.
\<close>

theorem storage_before_delivery:
  "\<exists>store_evs deliv_evs.
      trace (snd (handle_DATA w e s)) = trace s @ store_evs @ deliv_evs
    \<and> list_all is_store store_evs \<and> list_all is_delivery deliv_evs
    \<and> (\<forall>ev \<in> set store_evs. \<not> is_delivery ev) \<and> (\<forall>ev \<in> set deliv_evs. \<not> is_store ev)
    \<and> (stored w e s \<longrightarrow> store_evs = [MakeDirs, OpenWrite (probe (files s) 1) (content e)])
    \<and> (\<not> stored w e s \<longrightarrow> deliv_evs = [])"
proof (cases rule: handle_DATA_cases [where w = w and s = s and e = e])
  case (nodir x)
  then have "trace (snd (handle_DATA w e s)) = trace s @ [MakeDirs] @ []" "\<not> stored w e s"
    by (simp_all add: handle_DATA_nodir stored_def)
  then show ?thesis by (intro exI [of _ "[MakeDirs]"] exI [of _ "[]"]) simp
next
  case (failed x left)
  let ?evs = "[MakeDirs, OpenWrite (probe (files s) 1) (content e), Log StoreFailed]"
  from failed have "trace (snd (handle_DATA w e s)) = trace s @ ?evs @ []" "\<not> stored w e s"
    by (simp_all add: handle_DATA_failed stored_def)
  then show ?thesis by (intro exI [of _ ?evs] exI [of _ "[]"]) simp
next
  case stored
  let ?evs = "[MakeDirs, OpenWrite (probe (files s) 1) (content e)]"
  from deliver_all_ext [of w "trace s @ ?evs" "rcpt_tos e" "content e"] obtain devs where
    d: "deliver_all w (trace s @ ?evs) (rcpt_tos e) (content e) = (trace s @ ?evs) @ devs"
    and devs: "list_all is_delivery devs"
    by blast
  from stored d have "trace (snd (handle_DATA w e s)) = trace s @ ?evs @ devs"
    by (simp add: handle_DATA_stored)
  moreover from devs have "\<forall>ev \<in> set devs. \<not> is_store ev"
    using is_store_not_delivery by (auto simp: list_all_iff)
  moreover from stored have "stored w e s" by (simp add: stored_def)
  ultimately show ?thesis using devs
    by (intro exI [of _ ?evs] exI [of _ devs]) simp
qed

theorem storage_before_delivery_witness:
  "stored direct_world example_envelope empty_state
   \<and> (\<exists>deliv_evs. trace (snd (handle_DATA direct_world example_envelope empty_state))
          = trace empty_state @ [MakeDirs, OpenWrite 1 example_content] @ deliv_evs
        \<and> list_all is_delivery deliv_evs)
   \<and> \<not> stored full_disk_world example_envelope empty_state
   \<and> (\<exists>store_evs. trace (snd (handle_DATA full_disk_world example_envelope empty_state))
          = trace empty_state @ store_evs \<and> list_all is_store store_evs)"
proof -
  have a: "stored direct_world example_envelope empty_state" by code_simp
  have b: "\<not> stored full_disk_world example_envelope empty_state" by code_simp
  have c: "probe (files empty_state) 1 = 1" "content example_envelope = example_content"
    by code_simp+
  from storage_before_delivery [of direct_world example_envelope empty_state] a c
  have "\<exists>deliv_evs. trace (snd (handle_DATA direct_world example_envelope empty_state))
          = trace empty_state @ [MakeDirs, OpenWrite 1 example_content] @ deliv_evs
        \<and> list_all is_delivery deliv_evs"
    by auto
  moreover
  from storage_before_delivery [of full_disk_world example_envelope empty_state] b
  have "\<exists>store_evs. trace (snd (handle_DATA full_disk_world example_envelope empty_state))
          = trace empty_state @ store_evs \<and> list_all is_store store_evs"
    by auto
  ultimately show ?thesis using a b by blast
qed

subsection \<open>The stored copy\<close>

text \<open>
  Claim C3. After an accepted message (reply 250) the file the handler chose holds the
  content of the envelope, byte for byte, and every other file is as it was.
\<close>

theorem accepted_content_is_stored:
  assumes "fst (handle_DATA w e s) = Inr ''250 Message accepted for delivery''"
  shows "map_of (files (snd (handle_DATA w e s))) (probe (files s) 1) = Some (content e)
       \<and> (\<forall>j. j \<noteq> probe (files s) 1 \<longrightarrow>
              map_of (files (snd (handle_DATA w e s))) j = map_of (files s) j)"
proof -
  from handle_DATA_accepted [OF assms]
  have "files (snd (handle_DATA w e s)) = AList.update (probe (files s) 1) (content e) (files s)"
    by (simp add: handle_DATA_stored)
  then show ?thesis by (simp add: update_conv')
qed

theorem accepted_content_is_stored_witness:
  "fst (handle_DATA direct_world example_envelope gap_state) = Inr ''250 Message accepted for delivery''
   \<and> probe (files gap_state) 1 = 2
   \<and> map_of (files (snd (handle_DATA direct_world example_envelope gap_state))) 2 = Some example_content
   \<and> map_of (files (snd (handle_DATA direct_world example_envelope gap_state))) 3 = Some ''third''"
proof -
  have a: "fst (handle_DATA direct_world example_envelope gap_state)
             = Inr ''250 Message accepted for delivery''"
    by code_simp
  have b: "probe (files gap_state) 1 = 2" "content example_envelope = example_content"
    "map_of (files gap_state) 3 = Some ''third''"
    by code_simp+
  from accepted_content_is_stored [OF a] a b show ?thesis by simp
qed

subsection \<open>Identifiers\<close>

lemma written_ids_append: "written_ids (xs @ ys) = written_ids xs @ written_ids ys"
  by (induction xs rule: written_ids.induct) simp_all

lemma written_ids_delivery: "list_all is_delivery evs \<Longrightarrow> written_ids evs = []"
  by (induction evs rule: written_ids.induct) simp_all

lemma path_exists_dom: "path_exists fs i \<longleftrightarrow> i \<in> dom (map_of fs)"
  by (auto simp: path_exists_def)

lemma probe_full: 
  assumes "dom (map_of fs) = {1..n}"
  shows "probe fs 1 = Suc n"
proof -
  have "\<not> probe fs 1 \<le> n"
    using probe_free [of fs 1] probe_ge [of 1 fs] assms by (simp add: path_exists_dom)
  moreover have "\<not> Suc n < probe fs 1"
  proof
    assume "Suc n < probe fs 1"
    then have "path_exists fs (Suc n)" by (intro probe_below [of 1]) simp_all
    with assms show False by (simp add: path_exists_dom)
  qed
  ultimately show ?thesis by simp
qed

lemma handle_DATA_accepted_ids:
  assumes "fst (handle_DATA w e s) = Inr ''250 Message accepted for delivery''"
  shows "written_ids (trace (snd (handle_DATA w e s))) = written_ids (trace s) @ [probe (files s) 1]"
    and "dom (map_of (files (snd (handle_DATA w e s)))) = insert (probe (files s) 1) (dom (map_of (files s)))"
proof -
  let ?i = "probe (files s) 1"
  let ?h = "trace s @ [MakeDirs, OpenWrite ?i (content e)]"
  from handle_DATA_accepted [OF assms]
  have eq: "snd (handle_DATA w e s) = \<lparr>files = AList.update ?i (content e) (files s),
            trace = deliver_all w ?h (rcpt_tos e) (content e)\<rparr>"
    by (simp add: handle_DATA_stored)
  from deliver_all_ext [of w ?h "rcpt_tos e" "content e"] obtain devs where
    "deliver_all w ?h (rcpt_tos e) (content e) = ?h @ devs" "list_all is_delivery devs"
    by blast
  with eq show "written_ids (trace (snd (handle_DATA w e s))) = written_ids (trace s) @ [?i]"
    by (simp add: written_ids_append written_ids_delivery)
  from eq show "dom (map_of (files (snd (handle_DATA w e s)))) = insert ?i (dom (map_of (files s)))"
    by (simp add: update_conv')
qed

lemma sessions_ids:
  assumes "sessions w es s = (rs, s')"
    and "\<forall>r \<in> set rs. r = Inr ''250 Message accepted for delivery''"
    and "dom (map_of (files s)) = {1..n}"
  shows "written_ids (trace s') = written_ids (trace s) @ [Suc n ..< Suc n + length es]
       \<and> dom (map_of (files s')) = {1..n + length es}"
  using assms
proof (induction es arbitrary: s rs n)
  case Nil
  then show ?case by simp
next
  case (Cons e es)
  obtain r s1 where h: "handle_DATA w e s = (r, s1)" by (cases "handle_DATA w e s")
  obtain rs1 where t: "sessions w es s1 = (rs1, s')" and rs: "rs = r # rs1"
    using Cons.prems(1) h by (auto split: prod.splits)
  from rs Cons.prems(2) h have acc: "fst (handle_DATA w e s) = Inr ''250 Message accepted for delivery''"
    by simp
  have i: "probe (files s) 1 = Suc n" using Cons.prems(3) by (rule probe_full)
  from handle_DATA_accepted_ids [OF acc] h i Cons.prems(3)
  have w1: "written_ids (trace s1) = written_ids (trace s) @ [Suc n]"
    and d1: "dom (map_of (files s1)) = {1..Suc n}"
    by (auto simp: atLeastAtMostSuc_conv)
  from rs Cons.prems(2) have "\<forall>r \<in> set rs1. r = Inr ''250 Message accepted for delivery''"
    by simp
  from Cons.IH [OF t this d1]
  have w': "written_ids (trace s') = written_ids (trace s1) @ [Suc (Suc n) ..< Suc (Suc n) + length es]"
    and d': "dom (map_of (files s')) = {1..Suc n + length es}"
    by simp_all
  have "[Suc n ..< Suc n + length (e # es)] = Suc n # [Suc (Suc n) ..< Suc (Suc n) + length es]"
    by (simp add: upt_conv_Cons del: upt_Suc)
  with w' w1 have "written_ids (trace s') = written_ids (trace s) @ [Suc n ..< Suc n + length (e # es)]"
    by (simp del: upt_Suc)
  with d' show ?case by simp
qed

text \<open>
  Claim C4. The number of the file written for a message is the smallest \<open>i \<ge> 1\<close>
  whose path does not exist: it is at least 1, its path does not exist, and the path of
  every smaller number from 1 on exists. Hence \<open>N\<close> messages accepted one after the other,
  starting with an empty mail directory, are written to the files 1, 2, ..., \<open>N\<close> in
  this order.
\<close>

theorem identifiers_smallest_free_then_sequential:
  "(fst (handle_DATA w e s) = Inr ''250 Message accepted for delivery'' \<longrightarrow>
      written_ids (trace (snd (handle_DATA w e s))) = written_ids (trace s) @ [probe (files s) 1])
   \<and> 1 \<le> probe (files s) 1
   \<and> \<not> path_exists (files s) (probe (files s) 1)
   \<and> (\<forall>j. 1 \<le> j \<and> j < probe (files s) 1 \<longrightarrow> path_exists (files s) j)
   \<and> (sessions w es \<lparr>files = [], trace = []\<rparr> = (rs, s')
        \<and> (\<forall>r \<in> set rs. r = Inr ''250 Message accepted for delivery'')
      \<longrightarrow> written_ids (trace s') = [1 ..< Suc (length es)]
          \<and> distinct (written_ids (trace s')) \<and> sorted_wrt (<) (written_ids (trace s')))"
proof -
  have "written_ids (trace s') = [1 ..< Suc (length es)]"
    if "sessions w es \<lparr>files = [], trace = []\<rparr> = (rs, s')"
      "\<forall>r \<in> set rs. r = Inr ''250 Message accepted for delivery''"
    using sessions_ids [OF that, of 0] by simp
  then show ?thesis
    using probe_ge [of 1 "files s"] probe_free [of "files s" 1] probe_below [of 1 _ "files s"]
      handle_DATA_accepted_ids(1) [of w e s]
    by (auto simp del: upt_Suc)
qed

theorem identifiers_witness:
  "fst (handle_DATA direct_world example_envelope gap_state) = Inr ''250 Message accepted for delivery''
   \<and> written_ids (trace (snd (handle_DATA direct_world example_envelope gap_state))) = [2]
   \<and> path_exists (files gap_state) 1
   \<and> fst (sessions direct_world [example_envelope, example_envelope, example_envelope] empty_state)
       = [Inr ''250 Message accepted for delivery'', Inr ''250 Message accepted for delivery'',
          Inr ''250 Message accepted for delivery'']
   \<and> written_ids (trace (snd
        (sessions direct_world [example_envelope, example_envelope, example_envelope] empty_state)))
       = [1, 2, 3]"
proof -
  let ?es = "[example_envelope, example_envelope, example_envelope]"
  let ?run = "sessions direct_world ?es \<lparr>files = [], trace = []\<rparr>"
  have a: "fst (handle_DATA direct_world example_envelope gap_state)
             = Inr ''250 Message accepted for delivery''"
    by code_simp
  have b: "probe (files gap_state) 1 = 2" "written_ids (trace gap_state) = []"
    by code_simp+
  have c: "fst ?run = [Inr ''250 Message accepted for delivery'',
      Inr ''250 Message accepted for delivery'', Inr ''250 Message accepted for delivery'']"
    by code_simp
  then have d: "\<forall>r \<in> set (fst ?run). r = Inr ''250 Message accepted for delivery''"
    by simp
  have e: "?run = (fst ?run, snd ?run)" by simp
  note t = identifiers_smallest_free_then_sequential
      [of direct_world example_envelope gap_state ?es "fst ?run" "snd ?run"]
  from t a b have "written_ids (trace (snd (handle_DATA direct_world example_envelope gap_state))) = [2]"
    by simp
  moreover from t b have "path_exists (files gap_state) 1"
    by simp
  moreover from t d e have "written_ids (trace (snd ?run)) = [1 ..< Suc (length ?es)]"
    by blast
  then have "written_ids (trace (snd ?run)) = [1, 2, 3]"
    by (simp add: upt_rec)
  ultimately show ?thesis using a c by (simp add: empty_state_def)
qed

subsection \<open>The envelope sender\<close>

lemma split_ws_spaces: "list_all is_space s \<Longrightarrow> split_ws [] s = []"
  by (induction s) simp_all

lemma takeWhile_all: "list_all P xs \<Longrightarrow> takeWhile P xs = xs"
  by (induction xs) simp_all

lemma dropWhile_none: "list_all (\<lambda>x. \<not> P x) xs \<Longrightarrow> dropWhile P xs = xs"
  by (induction xs) simp_all

lemma spec_last_token_nonspace:
  "list_all (\<lambda>c. \<not> is_space c) cur \<Longrightarrow> spec_last_token cur = cur"
proof -
  assume a: "list_all (\<lambda>c. \<not> is_space c) cur"
  then have r: "list_all (\<lambda>c. \<not> is_space c) (rev cur)" by (simp add: list_all_iff)
  then show ?thesis by (simp add: spec_last_token_def dropWhile_none takeWhile_all)
qed

lemma spec_last_token_after_space:
  assumes "is_space c" and "\<exists>x \<in> set cs. \<not> is_space x"
  shows "spec_last_token (pre @ c # cs) = spec_last_token cs"
proof -
  from assms(2) obtain x where "x \<in> set (rev cs)" "\<not> is_space x" by auto
  then have d: "dropWhile is_space (rev cs @ ys) = dropWhile is_space (rev cs) @ ys" for ys
    by (rule dropWhile_append1)
  have t: "takeWhile (\<lambda>c. \<not> is_space c) (ys @ c # zs) = takeWhile (\<lambda>c. \<not> is_space c) ys" for ys zs
    using assms(1) by (induction ys) simp_all
  show ?thesis
    using d [of "c # rev pre"] d [of "[]"] t by (simp add: spec_last_token_def)
qed

lemma spec_last_token_trailing_spaces:
  assumes "is_space c" and "list_all is_space cs" and "list_all (\<lambda>c. \<not> is_space c) cur"
  shows "spec_last_token (cur @ c # cs) = cur"
proof -
  from assms(2) have "list_all is_space (rev cs)" by (simp add: list_all_iff)
  then have "dropWhile is_space (rev cs @ c # rev cur) = dropWhile is_space (c # rev cur)"
    by (induction "rev cs" arbitrary: cs) (auto simp: list_all_iff dropWhile_append)
  with assms(1) have "dropWhile is_space (rev (cur @ c # cs)) = dropWhile is_space (rev cur)"
    by simp
  then have "spec_last_token (cur @ c # cs) = spec_last_token cur"
    by (simp add: spec_last_token_def)
  with assms(3) show ?thesis by (simp add: spec_last_token_nonspace)
qed

lemma split_ws_last:
  "list_all (\<lambda>c. \<not> is_space c) cur \<Longrightarrow> cur \<noteq> [] \<or> (\<exists>x \<in> set s. \<not> is_space x)
    \<Longrightarrow> split_ws cur s \<noteq> [] \<and> last (split_ws cur s) = spec_last_token (cur @ s)"
proof (induction s arbitrary: cur)
  case Nil
  then show ?case by (simp add: spec_last_token_nonspace)
next
  case (Cons c cs)
  show ?case
  proof (cases "is_space c")
    case False
    with Cons.prems have "list_all (\<lambda>c. \<not> is_space c) (cur @ [c])" by simp
    from Cons.IH [OF this] False show ?thesis by simp
  next
    case True
    show ?thesis
    proof (cases "\<exists>x \<in> set cs. \<not> is_space x")
      case ex: True
      have "split_ws [] cs \<noteq> [] \<and> last (split_ws [] cs) = spec_last_token ([] @ cs)"
        by (rule Cons.IH) (use ex in simp_all)
      with True ex show ?thesis
        by (simp add: spec_last_token_after_space)
    next
      case all: False
      then have sp: "list_all is_space cs" by (simp add: list_all_iff)
      with True all Cons.prems have "cur \<noteq> []" by auto
      with True sp Cons.prems(1) show ?thesis
        by (simp add: split_ws_spaces spec_last_token_trailing_spaces)
    qed
  qed
qed

lemma py_split_last:
  "\<exists>x \<in> set s. \<not> is_space x \<Longrightarrow> last_item (py_split s) = Inr (spec_last_token s)"
  using split_ws_last [of "[]" s] by (simp add: py_split_def last_item_def)

lemma spec_last_token_no_space: "list_all (\<lambda>c. \<not> is_space c) (spec_last_token s)"
proof -
  have "\<forall>x \<in> set (takeWhile (\<lambda>c. \<not> is_space c) ys). \<not> is_space x" for ys
    by (auto dest: set_takeWhileD)
  then show ?thesis by (simp add: spec_last_token_def list_all_iff)
qed

lemma py_strip_brackets:
  assumes "list_all (\<lambda>c. \<not> is_space c) t"
  shows "py_strip [CHR ''<'', CHR ''>'', CHR 0x0A, CHR 0x0D] t = spec_strip_brackets t"
proof -
  let ?P = "\<lambda>c. c \<in> set [CHR ''<'', CHR ''>'', CHR 0x0A, CHR 0x0D]"
  let ?Q = "\<lambda>c. c = CHR ''<'' \<or> c = CHR ''>''"
  have sp: "is_space (CHR 0x0A)" "is_space (CHR 0x0D)" by (simp_all add: is_space_def)
  have pq: "?P x = ?Q x" if "x \<in> set t" for x
    using that assms sp by (auto simp: list_all_iff)
  have 1: "dropWhile ?P t = dropWhile ?Q t"
    by (rule dropWhile_cong) (use pq in auto)
  have 2: "dropWhile ?P (rev (dropWhile ?Q t)) = dropWhile ?Q (rev (dropWhile ?Q t))"
    by (rule dropWhile_cong) (use pq in \<open>auto dest: set_dropWhileD\<close>)
  from 1 2 show ?thesis
    by (simp only: py_strip_def py_rstrip_def spec_strip_brackets_def)
qed

lemma at_not_space: "\<not> is_space (CHR ''@'')"
  by (simp add: is_space_def)

lemma envelope_from_relay_user:
  "truthy (getenv w ''SMTP_RELAY_USERNAME'')
    \<Longrightarrow> envelope_from w c = the (getenv w ''SMTP_RELAY_USERNAME'')"
  by (simp add: envelope_from_def)

lemma envelope_from_address:
  assumes "\<not> truthy (getenv w ''SMTP_RELAY_USERNAME'')"
    and "from_header w c = Inr (Some frm)" and "CHR ''@'' \<in> set frm"
  shows "envelope_from w c = spec_strip_brackets (spec_last_token frm)"
proof -
  from assms(3) at_not_space have ex: "\<exists>x \<in> set frm. \<not> is_space x" by blast
  from assms(3) have "frm \<noteq> []" by auto
  with assms py_split_last [OF ex]
  have "envelope_from w c = py_strip [CHR ''<'', CHR ''>'', CHR 0x0A, CHR 0x0D] (spec_last_token frm)"
    by (simp add: envelope_from_def)
  then show ?thesis by (simp only: py_strip_brackets [OF spec_last_token_no_space])
qed

lemma envelope_from_no_at:
  "\<not> truthy (getenv w ''SMTP_RELAY_USERNAME'') \<Longrightarrow> from_header w c = Inr (Some frm)
    \<Longrightarrow> frm \<noteq> [] \<Longrightarrow> CHR ''@'' \<notin> set frm \<Longrightarrow> envelope_from w c = frm"
  by (simp add: envelope_from_def)

lemma envelope_from_default:
  "\<not> truthy (getenv w ''SMTP_RELAY_USERNAME'')
    \<Longrightarrow> from_header w c = Inr None \<or> from_header w c = Inr (Some []) \<or> from_header w c = Inl e
    \<Longrightarrow> envelope_from w c = ''postmaster@localhost''"
  by (auto simp: envelope_from_def)

text \<open>
  Claim C8, as amended. A relay user name that is not empty is returned whatever the
  message holds. Otherwise, a \<^verbatim>\<open>From\<close> header that contains \<^verbatim>\<open>@\<close> gives its last
  whitespace-delimited token with the angle brackets at both ends stripped; a
  \<^verbatim>\<open>From\<close> header that is not empty and contains no \<^verbatim>\<open>@\<close> is returned as it is;
  and a message without the header, with an empty one, or one the parser fails on gives
  \<^verbatim>\<open>postmaster@localhost\<close>.
\<close>

theorem envelope_from_precedence:
  "(truthy (getenv w ''SMTP_RELAY_USERNAME'')
      \<longrightarrow> envelope_from w c = the (getenv w ''SMTP_RELAY_USERNAME''))
   \<and> (\<not> truthy (getenv w ''SMTP_RELAY_USERNAME'') \<and> from_header w c = Inr (Some frm)
        \<and> CHR ''@'' \<in> set frm
      \<longrightarrow> envelope_from w c = spec_strip_brackets (spec_last_token frm))
   \<and> (\<not> truthy (getenv w ''SMTP_RELAY_USERNAME'') \<and> from_header w c = Inr (Some frm)
        \<and> frm \<noteq> [] \<and> CHR ''@'' \<notin> set frm
      \<longrightarrow> envelope_from w c = frm)
   \<and> (\<not> truthy (getenv w ''SMTP_RELAY_USERNAME'')
        \<and> (from_header w c = Inr None \<or> from_header w c = Inr (Some []) \<or> from_header w c = Inl e)
      \<longrightarrow> envelope_from w c = ''postmaster@localhost'')"
  using envelope_from_relay_user [of w c] envelope_from_address [of w c frm]
    envelope_from_no_at [of w c frm] envelope_from_default [of w c e]
  by blast

text \<open>
  The claim as it was stated promises \<^verbatim>\<open>postmaster@localhost\<close> for a header without
  \<^verbatim>\<open>@\<close>. With no relay user and the header \<^verbatim>\<open>From: Alice\<close> the function returns
  \<^verbatim>\<open>Alice\<close> (the branch \<^verbatim>\<open>return frm\<close>).
\<close>

theorem envelope_from_counterexample:
  "\<not> truthy (getenv alice_world ''SMTP_RELAY_USERNAME'')
   \<and> from_header alice_world alice_content = Inr (Some ''Alice'')
   \<and> CHR ''@'' \<notin> set ''Alice''
   \<and> envelope_from alice_world alice_content = ''Alice''
   \<and> envelope_from alice_world alice_content \<noteq> ''postmaster@localhost''"
  by code_simp

text \<open>The four cases of the amended claim, each at an example.\<close>

theorem envelope_from_precedence_witness:
  "envelope_from relay_world example_content = ''relay@x.com''
   \<and> envelope_from direct_world example_content = ''alice@example.com''
   \<and> envelope_from alice_world alice_content = ''Alice''
   \<and> envelope_from direct_world alice_content = ''postmaster@localhost''"
proof -
  have a: "truthy (getenv relay_world ''SMTP_RELAY_USERNAME'')"
    "the (getenv relay_world ''SMTP_RELAY_USERNAME'') = ''relay@x.com''"
    by code_simp+
  have b: "\<not> truthy (getenv direct_world ''SMTP_RELAY_USERNAME'')"
    "from_header direct_world example_content = Inr (Some ''Alice <alice@example.com>'')"
    "CHR ''@'' \<in> set ''Alice <alice@example.com>''"
    "spec_strip_brackets (spec_last_token ''Alice <alice@example.com>'') = ''alice@example.com''"
    by code_simp+
  have c: "\<not> truthy (getenv alice_world ''SMTP_RELAY_USERNAME'')"
    "from_header alice_world alice_content = Inr (Some ''Alice'')"
    "''Alice'' \<noteq> []" "CHR ''@'' \<notin> set ''Alice''"
    by code_simp+
  have d: "from_header direct_world alice_content = Inr None"
    by code_simp
  from envelope_from_precedence [of relay_world example_content] a
  have 1: "envelope_from relay_world example_content = ''relay@x.com''" by simp
  from envelope_from_precedence [of direct_world example_content "''Alice <alice@example.com>''"] b
  have 2: "envelope_from direct_world example_content = ''alice@example.com''" by simp
  from envelope_from_precedence [of alice_world alice_content "''Alice''"] c
  have 3: "envelope_from alice_world alice_content = ''Alice''" by simp
  from envelope_from_precedence [of direct_world alice_content "[]" ValueError] b(1) d
  have 4: "envelope_from direct_world alice_content = ''postmaster@localhost''" by simp
  from 1 2 3 4 show ?thesis by simp
qed

subsection \<open>The order of the MX hosts\<close>

lemma connect_targets_append:
  "connect_targets (xs @ ys) = connect_targets xs @ connect_targets ys"
  by (induction xs rule: connect_targets.induct) simp_all

lemma delivered_via_append: "delivered_via (xs @ ys) = delivered_via xs @ delivered_via ys"
  by (induction xs rule: delivered_via.induct) simp_all

lemma failed_via_append: "failed_via (xs @ ys) = failed_via xs @ failed_via ys"
  by (induction xs rule: failed_via.induct) simp_all

lemma in_session_quiet:
  assumes "list_all in_session evs"
  shows "connect_targets evs = []" and "delivered_via evs = []" and "failed_via evs = []"
proof -
  have s: "in_session ev \<Longrightarrow> \<exists>c. ev = Smtp c \<and> \<not> is_connect c" for ev
    by (cases ev) simp_all
  have c: "\<not> is_connect c \<Longrightarrow> connect_targets (Smtp c # evs) = connect_targets evs" for c evs
    by (cases c) simp_all
  from assms show "connect_targets evs = []"
    by (induction evs) (auto dest!: s simp: c)
  from assms show "delivered_via evs = []"
    by (induction evs) (auto dest!: s)
  from assms show "failed_via evs = []"
    by (induction evs) (auto dest!: s)
qed

lemma run_calls_in_session:
  "list_all (\<lambda>c. \<not> is_connect c) cs
    \<Longrightarrow> \<exists>evs. snd (run_calls w h cs) = h @ evs \<and> list_all in_session evs"
proof (induction cs arbitrary: h)
  case Nil
  then show ?case by simp
next
  case (Cons c cs)
  show ?case
  proof (cases "smtp w h c")
    case (Inl e)
    with Cons.prems show ?thesis by simp
  next
    case (Inr u)
    from Cons.prems have "list_all (\<lambda>c. \<not> is_connect c) cs" by simp
    from Cons.IH [OF this, of "h @ [Smtp c]"] obtain evs where
      "snd (run_calls w (h @ [Smtp c]) cs) = (h @ [Smtp c]) @ evs" "list_all in_session evs"
      by blast
    with Inr Cons.prems show ?thesis by simp
  qed
qed

lemma smtp_session_events:
  assumes "list_all (\<lambda>c. \<not> is_connect c) body"
  shows "\<exists>evs. snd (smtp_session w h host port tmo body) = h @ Smtp (Connect host port tmo) # evs
           \<and> list_all in_session evs"
proof (cases "smtp w h (Connect host port tmo)")
  case (Inl e)
  then show ?thesis by (simp add: smtp_session_def)
next
  case (Inr u)
  let ?h0 = "h @ [Smtp (Connect host port tmo)]"
  obtain r h1 where rc: "run_calls w ?h0 body = (r, h1)"
    by (cases "run_calls w ?h0 body")
  from run_calls_in_session [OF assms, of w ?h0] rc obtain evs where
    "h1 = ?h0 @ evs" "list_all in_session evs"
    by auto
  with Inr rc show ?thesis
    by (cases "smtp w h1 Quit") (simp_all add: smtp_session_def)
qed

lemma mx_loop_failed:
  "mx_loop w h rcpt d c hosts le = (Inl e, h')
    \<Longrightarrow> \<exists>evs. h' = h @ evs \<and> connect_targets evs = map (\<lambda>x. (x, 25)) hosts
          \<and> failed_via evs = hosts \<and> delivered_via evs = []"
proof (induction hosts arbitrary: h le)
  case Nil
  then show ?case by simp
next
  case (Cons host hosts)
  let ?h0 = "h @ [Log (AttemptingMX rcpt d host)]"
  let ?body = "[Ehlo (Some ''local-relay''), SendMail (envelope_from w c) [rcpt] c]"
  obtain r h1 where ses: "smtp_session w ?h0 host 25 30 ?body = (r, h1)"
    by (cases "smtp_session w ?h0 host 25 30 ?body")
  from smtp_session_events [of ?body w ?h0 host 25 30] ses obtain sevs where
    h1: "h1 = ?h0 @ Smtp (Connect host 25 30) # sevs" and sevs: "list_all in_session sevs"
    by auto
  show ?case
  proof (cases r)
    case (Inr u)
    with ses Cons.prems show ?thesis by simp
  next
    case (Inl x)
    let ?h2 = "h1 @ [Log (MXFailed rcpt host x)]"
    from Inl ses Cons.prems have "mx_loop w ?h2 rcpt d c hosts (Some x) = (Inl e, h')"
      by simp
    from Cons.IH [OF this] obtain evs where
      "h' = ?h2 @ evs" "connect_targets evs = map (\<lambda>x. (x, 25)) hosts"
      "failed_via evs = hosts" "delivered_via evs = []"
      by blast
    with h1 in_session_quiet [OF sevs] show ?thesis
      by (intro exI [of _ "Log (AttemptingMX rcpt d host) # Smtp (Connect host 25 30) # sevs
                            @ Log (MXFailed rcpt host x) # evs"])
         (simp add: connect_targets_append failed_via_append delivered_via_append)
  qed
qed

lemma mx_loop_delivered:
  "mx_loop w h rcpt d c hosts le = (Inr u, h')
    \<Longrightarrow> \<exists>evs n. h' = h @ evs \<and> n < length hosts
          \<and> connect_targets evs = map (\<lambda>x. (x, 25)) (take (Suc n) hosts)
          \<and> failed_via evs = take n hosts \<and> delivered_via evs = [hosts ! n]"
proof (induction hosts arbitrary: h le)
  case Nil
  then show ?case by simp
next
  case (Cons host hosts)
  let ?h0 = "h @ [Log (AttemptingMX rcpt d host)]"
  let ?body = "[Ehlo (Some ''local-relay''), SendMail (envelope_from w c) [rcpt] c]"
  obtain r h1 where ses: "smtp_session w ?h0 host 25 30 ?body = (r, h1)"
    by (cases "smtp_session w ?h0 host 25 30 ?body")
  from smtp_session_events [of ?body w ?h0 host 25 30] ses obtain sevs where
    h1: "h1 = ?h0 @ Smtp (Connect host 25 30) # sevs" and sevs: "list_all in_session sevs"
    by auto
  show ?case
  proof (cases r)
    case (Inr v)
    with ses Cons.prems have "h' = h1 @ [Log (DeliveredViaMX rcpt host)]" by simp
    with h1 in_session_quiet [OF sevs] show ?thesis
      by (intro exI [of _ "Log (AttemptingMX rcpt d host) # Smtp (Connect host 25 30) # sevs
                            @ [Log (DeliveredViaMX rcpt host)]"] exI [of _ 0])
         (simp add: connect_targets_append failed_via_append delivered_via_append)
  next
    case (Inl x)
    let ?h2 = "h1 @ [Log (MXFailed rcpt host x)]"
    from Inl ses Cons.prems have "mx_loop w ?h2 rcpt d c hosts (Some x) = (Inr u, h')"
      by simp
    from Cons.IH [OF this] obtain evs n where
      "h' = ?h2 @ evs" "n < length hosts"
      "connect_targets evs = map (\<lambda>x. (x, 25)) (take (Suc n) hosts)"
      "failed_via evs = take n hosts" "delivered_via evs = [hosts ! n]"
      by blast
    with h1 in_session_quiet [OF sevs] show ?thesis
      by (intro exI [of _ "Log (AttemptingMX rcpt d host) # Smtp (Connect host 25 30) # sevs
                            @ Log (MXFailed rcpt host x) # evs"] exI [of _ "Suc n"])
         (simp add: connect_targets_append failed_via_append delivered_via_append)
  qed
qed

lemma sorted_pairs_by_preference:
  fixes ps :: "(int \<times> string) list"
  assumes "sorted ps"
  shows "sorted (map fst ps)"
    and "\<forall>i j. i < j \<and> j < length ps \<and> fst (ps ! i) = fst (ps ! j) \<longrightarrow> snd (ps ! i) \<le> snd (ps ! j)"
proof -
  have le: "ps ! i \<le> ps ! j" if "i \<le> j" "j < length ps" for i j
    using assms that by (simp add: sorted_iff_nth_mono)
  have "fst (ps ! i) \<le> fst (ps ! j)" if "i \<le> j" "j < length ps" for i j
    using le [OF that] by (cases "ps ! i"; cases "ps ! j") auto
  then show "sorted (map fst ps)"
    by (simp add: sorted_iff_nth_mono)
  show "\<forall>i j. i < j \<and> j < length ps \<and> fst (ps ! i) = fst (ps ! j) \<longrightarrow> snd (ps ! i) \<le> snd (ps ! j)"
  proof (intro allI impI)
    fix i j assume a: "i < j \<and> j < length ps \<and> fst (ps ! i) = fst (ps ! j)"
    then have "ps ! i \<le> ps ! j" by (intro le) simp_all
    with a show "snd (ps ! i) \<le> snd (ps ! j)"
      by (cases "ps ! i"; cases "ps ! j") auto
  qed
qed

lemma sorted_distinct_keys:
  fixes ps :: "(int \<times> string) list"
  shows "sorted (map fst ps) \<Longrightarrow> distinct (map fst ps) \<Longrightarrow> sorted ps"
proof (induction ps)
  case Nil
  then show ?case by simp
next
  case (Cons p ps)
  have "p \<le> q" if "q \<in> set ps" for q
  proof -
    from that Cons.prems have "fst p \<le> fst q" "fst p \<noteq> fst q" by auto
    then show ?thesis by (cases p; cases q) auto
  qed
  with Cons show ?case by simp
qed

lemma sort_distinct_keys:
  fixes ps :: "(int \<times> string) list"
  assumes "distinct (map fst ps)"
  shows "sort ps = sort_key fst ps"
proof (rule sorted_distinct_set_unique)
  from assms have d: "distinct ps" by (rule distinct_map [THEN iffD1, THEN conjunct1])
  show "sorted (sort ps)" by simp
  from d show "distinct (sort ps)" by simp
  from d show "distinct (sort_key fst ps)" by simp
  show "set (sort ps) = set (sort_key fst ps)" by simp
  have "mset (map fst (sort_key fst ps)) = mset (map fst ps)" by simp
  with assms have "distinct (map fst (sort_key fst ps))"
    by (metis mset_eq_imp_distinct_iff)
  then show "sorted (sort_key fst ps)"
    by (intro sorted_distinct_keys) simp_all
qed

lemma map_fst_mx_pairs: "map fst (mx_pairs answers) = map fst answers"
  by (induction answers) (auto simp: mx_pairs_def)

lemma get_mx_hosts_sorted:
  assumes "resolve_mx w h d = Inr answers"
  shows "\<exists>ps. fst (get_mx_hosts w h d) = Inr (map snd ps)
          \<and> mset ps = mset (mx_pairs answers)
          \<and> sorted (map fst ps)
          \<and> (\<forall>i j. i < j \<and> j < length ps \<and> fst (ps ! i) = fst (ps ! j)
                \<longrightarrow> snd (ps ! i) \<le> snd (ps ! j))"
proof -
  let ?ps = "sort (mx_pairs answers)"
  have "sorted ?ps" by simp
  from sorted_pairs_by_preference [OF this] assms show ?thesis
    by (intro exI [of _ ?ps]) (simp add: get_mx_hosts_def)
qed

lemma get_mx_hosts_distinct:
  assumes "resolve_mx w h d = Inr answers" and "distinct (map fst answers)"
  shows "fst (get_mx_hosts w h d) = Inr (spec_mx_order answers)"
proof -
  from assms(2) have "distinct (map fst (mx_pairs answers))"
    by (simp add: map_fst_mx_pairs)
  then have "sort (mx_pairs answers) = sort_key fst (mx_pairs answers)"
    by (rule sort_distinct_keys)
  with assms(1) show ?thesis
    by (simp add: get_mx_hosts_def spec_mx_order_def)
qed

lemma mx_fallback_loop:
  "item (split_once CHR ''@'' rcpt) 1 = Inr d \<Longrightarrow> get_mx_hosts w h d = (Inr hosts, h1)
    \<Longrightarrow> hosts \<noteq> [] \<Longrightarrow> mx_fallback w h rcpt c = mx_loop w h1 rcpt d c hosts None"
  by (simp add: mx_fallback_def)

lemma get_mx_hosts_example:
  "resolve_mx w h d = Inr [(10, ''mx1.example''), (5, ''mx2.example'')]
    \<Longrightarrow> fst (get_mx_hosts w h d) = Inr [''mx2.example'', ''mx1.example'']"
  by (simp add: get_mx_hosts_def mx_pairs_def py_rstrip_def)

text \<open>
  Claim C6, as amended. \<^verbatim>\<open>_get_mx_hosts\<close> returns the host names of the answer in
  ascending order of preference; records of equal preference come in ascending order of
  their host names (\<^verbatim>\<open>sorted\<close> compares the pairs), not in the order of the answer. When
  no two records share a preference this is the order the specification describes. The
  fallback hands this list to the loop, which connects to the hosts in this order on
  port 25: when the loop fails it has tried every host, and when it succeeds the host
  that accepted the message is the last one tried and each one before it failed. For the
  records \<open>(10, mx1.example)\<close> and \<open>(5, mx2.example)\<close> the list is \<open>mx2.example\<close>,
  \<open>mx1.example\<close>.
\<close>

theorem mx_hosts_order:
  "(resolve_mx w h d = Inr answers \<longrightarrow>
      (\<exists>ps. fst (get_mx_hosts w h d) = Inr (map snd ps)
          \<and> mset ps = mset (mx_pairs answers)
          \<and> sorted (map fst ps)
          \<and> (\<forall>i j. i < j \<and> j < length ps \<and> fst (ps ! i) = fst (ps ! j)
                \<longrightarrow> snd (ps ! i) \<le> snd (ps ! j))))
   \<and> (resolve_mx w h d = Inr answers \<and> distinct (map fst answers) \<longrightarrow>
        fst (get_mx_hosts w h d) = Inr (spec_mx_order answers))
   \<and> (item (split_once CHR ''@'' rcpt) 1 = Inr d \<and> get_mx_hosts w h d = (Inr hosts, h1)
        \<and> hosts \<noteq> [] \<longrightarrow>
        mx_fallback w h rcpt c = mx_loop w h1 rcpt d c hosts None)
   \<and> (mx_loop w h1 rcpt d c hosts le = (Inl e, h2) \<longrightarrow>
        (\<exists>evs. h2 = h1 @ evs \<and> connect_targets evs = map (\<lambda>x. (x, 25)) hosts
           \<and> failed_via evs = hosts \<and> delivered_via evs = []))
   \<and> (mx_loop w h1 rcpt d c hosts le = (Inr u, h2) \<longrightarrow>
        (\<exists>evs n. h2 = h1 @ evs \<and> n < length hosts
           \<and> connect_targets evs = map (\<lambda>x. (x, 25)) (take (Suc n) hosts)
           \<and> failed_via evs = take n hosts \<and> delivered_via evs = [hosts ! n]))
   \<and> (resolve_mx w h d = Inr [(10, ''mx1.example''), (5, ''mx2.example'')] \<longrightarrow>
        fst (get_mx_hosts w h d) = Inr [''mx2.example'', ''mx1.example''])"
  using get_mx_hosts_sorted [of w h d answers] get_mx_hosts_distinct [of w h d answers]
    mx_fallback_loop [of rcpt d w h hosts h1 c]
    mx_loop_failed [of w h1 rcpt d c hosts le e h2]
    mx_loop_delivered [of w h1 rcpt d c hosts le u h2]
    get_mx_hosts_example [of w h d]
  by blast

text \<open>
  The claim as it was stated keeps the resolver's order among equal preferences. For the
  answer \<open>(10, b.example.)\<close>, \<open>(10, a.example.)\<close> that order is \<open>b.example\<close> first;
  the code returns \<open>a.example\<close> first and connects to it.
\<close>

theorem mx_ties_counterexample:
  "resolve_mx tie_world [] ''tie.test'' = Inr [(10, ''b.example.''), (10, ''a.example.'')]
   \<and> spec_mx_order [(10, ''b.example.''), (10, ''a.example.'')]
       = [''b.example'', ''a.example'']
   \<and> fst (get_mx_hosts tie_world [] ''tie.test'') = Inr [''a.example'', ''b.example'']
   \<and> connect_targets (snd (mx_fallback tie_world [] ''someone@tie.test'' example_content))
       = [(''a.example'', 25)]"
  by code_simp

text \<open>
  The amended claim at \<open>direct_world\<close>: the records of \<^verbatim>\<open>hasmx.test\<close> are reordered,
  \<open>mx2.example\<close> is tried first and refuses, \<open>mx1.example\<close> is tried next and accepts.
\<close>

theorem mx_hosts_order_witness:
  "fst (get_mx_hosts direct_world [] ''hasmx.test'') = Inr [''mx2.example'', ''mx1.example'']
   \<and> fst (mx_fallback direct_world [] ''b@hasmx.test'' example_content) = Inr ()
   \<and> (\<exists>evs n. snd (mx_fallback direct_world [] ''b@hasmx.test'' example_content)
          = [Resolve ''hasmx.test''] @ evs
        \<and> n < 2
        \<and> connect_targets evs = map (\<lambda>x. (x, 25)) (take (Suc n) [''mx2.example'', ''mx1.example''])
        \<and> failed_via evs = take n [''mx2.example'', ''mx1.example'']
        \<and> delivered_via evs = [[''mx2.example'', ''mx1.example''] ! n])
   \<and> connect_targets (snd (mx_fallback direct_world [] ''b@hasmx.test'' example_content))
       = [(''mx2.example'', 25), (''mx1.example'', 25)]"
proof -
  let ?answers = "[(10, ''mx1.example.''), (5, ''mx2.example.'')] :: (int \<times> string) list"
  let ?hosts = "[''mx2.example'', ''mx1.example'']"
  let ?h1 = "[Resolve ''hasmx.test'']"
  define loop where
    "loop = mx_loop direct_world ?h1 ''b@hasmx.test'' ''hasmx.test'' example_content ?hosts None"
  note t = mx_hosts_order [of direct_world "[]" "''hasmx.test''" ?answers "''b@hasmx.test''"
      ?hosts ?h1 example_content None _ "snd loop" "()", folded loop_def]
  have a: "resolve_mx direct_world [] ''hasmx.test'' = Inr ?answers"
    "distinct (map fst ?answers)"
    "spec_mx_order ?answers = ?hosts"
    by code_simp+
  have b: "item (split_once CHR ''@'' ''b@hasmx.test'') 1 = Inr ''hasmx.test''"
    "get_mx_hosts direct_world [] ''hasmx.test'' = (Inr ?hosts, ?h1)"
    "?hosts \<noteq> []"
    by code_simp+
  have c: "fst loop = Inr ()" unfolding loop_def by code_simp
  then have d: "loop = (Inr (), snd loop)" by (metis prod.collapse)
  have e: "connect_targets (snd loop) = [(''mx2.example'', 25), (''mx1.example'', 25)]"
    unfolding loop_def by code_simp
  have l: "length ?hosts = 2" by simp
  from t a have 1: "fst (get_mx_hosts direct_world [] ''hasmx.test'') = Inr ?hosts"
    by simp
  from t b have 2: "mx_fallback direct_world [] ''b@hasmx.test'' example_content = loop"
    by blast
  from t d have "\<exists>evs n. snd loop = ?h1 @ evs \<and> n < length ?hosts
        \<and> connect_targets evs = map (\<lambda>x. (x, 25)) (take (Suc n) ?hosts)
        \<and> failed_via evs = take n ?hosts \<and> delivered_via evs = [?hosts ! n]"
    by blast
  then have 3: "\<exists>evs n. snd loop = ?h1 @ evs \<and> n < 2
        \<and> connect_targets evs = map (\<lambda>x. (x, 25)) (take (Suc n) ?hosts)
        \<and> failed_via evs = take n ?hosts \<and> delivered_via evs = [?hosts ! n]"
    unfolding l .
  show ?thesis unfolding 2 using 1 3 c e by blast
qed

subsection \<open>No MX hosts\<close>

lemma domain_of_rcpt:
  "item (split_once CHR ''@'' rcpt) 1 =
     (if CHR ''@'' \<in> set rcpt then Inr (tl (dropWhile (\<lambda>c. c \<noteq> CHR ''@'') rcpt))
      else Inl IndexError)"
proof (cases "dropWhile (\<lambda>c. c \<noteq> CHR ''@'') rcpt")
  case Nil
  have s: "split_once CHR ''@'' rcpt = [rcpt]"
    unfolding split_once_def Nil by simp
  from Nil have "CHR ''@'' \<notin> set rcpt" by auto
  with s show ?thesis by (simp add: item_def)
next
  case (Cons x rest)
  have s: "split_once CHR ''@'' rcpt = [takeWhile (\<lambda>c. c \<noteq> CHR ''@'') rcpt, rest]"
    unfolding split_once_def Cons by simp
  from Cons have "dropWhile (\<lambda>c. c \<noteq> CHR ''@'') rcpt \<noteq> []" by simp
  then have "CHR ''@'' \<in> set rcpt" by auto
  with s Cons show ?thesis by (simp add: item_def)
qed

lemma sort_empty: "sort xs = [] \<longleftrightarrow> xs = []"
  using length_sort [of "\<lambda>x. x" xs] by (metis length_0_conv)

lemma get_mx_hosts_empty:
  "fst (get_mx_hosts w h d) = Inr [] \<longleftrightarrow> resolve_mx w h d = Inr []"
  by (auto simp: get_mx_hosts_def mx_pairs_def sort_empty split: sum.splits)

lemma get_mx_hosts_error:
  "fst (get_mx_hosts w h d) = Inl e \<longleftrightarrow> resolve_mx w h d = Inl e"
  by (auto simp: get_mx_hosts_def split: sum.splits)

lemma mx_fallback_no_hosts:
  assumes "CHR ''@'' \<in> set rcpt" and "fst (get_mx_hosts w h (tl (dropWhile (\<lambda>c. c \<noteq> CHR ''@'') rcpt))) = Inr []"
  shows "mx_fallback w h rcpt c =
           (Inl (RuntimeError (''No MX hosts found for '' @ tl (dropWhile (\<lambda>c. c \<noteq> CHR ''@'') rcpt))),
            h @ [Resolve (tl (dropWhile (\<lambda>c. c \<noteq> CHR ''@'') rcpt))])"
proof -
  let ?d = "tl (dropWhile (\<lambda>c. c \<noteq> CHR ''@'') rcpt)"
  from assms(2) get_mx_hosts_ext [of w h ?d]
  have "get_mx_hosts w h ?d = (Inr [], h @ [Resolve ?d])"
    by (cases "get_mx_hosts w h ?d") simp
  with assms(1) show ?thesis by (simp add: mx_fallback_def domain_of_rcpt [unfolded One_nat_def] del: append.simps)
qed

lemma mx_fallback_resolve_error:
  assumes "CHR ''@'' \<in> set rcpt" and "resolve_mx w h (tl (dropWhile (\<lambda>c. c \<noteq> CHR ''@'') rcpt)) = Inl e"
  shows "mx_fallback w h rcpt c = (Inl e, h @ [Resolve (tl (dropWhile (\<lambda>c. c \<noteq> CHR ''@'') rcpt))])"
  using assms by (simp add: mx_fallback_def domain_of_rcpt [unfolded One_nat_def] get_mx_hosts_def)

text \<open>
  Claim C7. A recipient with a domain (the text after its first \<^verbatim>\<open>@\<close>) has reached the
  fallback. When the list \<^verbatim>\<open>_get_mx_hosts\<close> returns is empty, the delivery raises
  \<^verbatim>\<open>RuntimeError("No MX hosts found for <domain>")\<close> and the only event is the DNS
  query: no connection is opened. When the resolver raises, its exception leaves the
  delivery in the same way, after the same single event and without a connection.
\<close>

theorem no_mx_hosts_no_connection:
  "(CHR ''@'' \<in> set rcpt
      \<and> fst (get_mx_hosts w h (tl (dropWhile (\<lambda>c. c \<noteq> CHR ''@'') rcpt))) = Inr [] \<longrightarrow>
        mx_fallback w h rcpt c =
          (Inl (RuntimeError (''No MX hosts found for '' @ tl (dropWhile (\<lambda>c. c \<noteq> CHR ''@'') rcpt))),
           h @ [Resolve (tl (dropWhile (\<lambda>c. c \<noteq> CHR ''@'') rcpt))])
      \<and> connect_targets (drop (length h) (snd (mx_fallback w h rcpt c))) = [])
   \<and> (CHR ''@'' \<in> set rcpt
      \<and> resolve_mx w h (tl (dropWhile (\<lambda>c. c \<noteq> CHR ''@'') rcpt)) = Inl e \<longrightarrow>
        mx_fallback w h rcpt c = (Inl e, h @ [Resolve (tl (dropWhile (\<lambda>c. c \<noteq> CHR ''@'') rcpt))])
      \<and> connect_targets (drop (length h) (snd (mx_fallback w h rcpt c))) = [])"
  using mx_fallback_no_hosts [of rcpt w h c] mx_fallback_resolve_error [of rcpt w h e c]
  by auto

text \<open>
  Both cases at \<^verbatim>\<open>a@nomx.test\<close>: an empty answer in \<open>no_mx_world\<close>, a resolver that
  raises in \<open>direct_world\<close>.
\<close>

theorem no_mx_hosts_witness:
  "mx_fallback no_mx_world [] ''a@nomx.test'' example_content
      = (Inl (RuntimeError ''No MX hosts found for nomx.test''), [Resolve ''nomx.test''])
   \<and> mx_fallback direct_world [] ''a@nomx.test'' example_content
      = (Inl (LibraryError ''NXDOMAIN''), [Resolve ''nomx.test''])"
proof -
  have a: "CHR ''@'' \<in> set ''a@nomx.test''"
    "tl (dropWhile (\<lambda>c. c \<noteq> CHR ''@'') ''a@nomx.test'') = ''nomx.test''"
    by code_simp+
  have b: "fst (get_mx_hosts no_mx_world [] ''nomx.test'') = Inr []"
    by code_simp
  have c: "resolve_mx direct_world [] ''nomx.test'' = Inl (LibraryError ''NXDOMAIN'')"
    by code_simp
  from no_mx_hosts_no_connection [of "''a@nomx.test''" no_mx_world "[]" example_content] a b
  have 1: "mx_fallback no_mx_world [] ''a@nomx.test'' example_content
      = (Inl (RuntimeError ''No MX hosts found for nomx.test''), [Resolve ''nomx.test''])"
    by simp
  from no_mx_hosts_no_connection [of "''a@nomx.test''" direct_world "[]" _ "LibraryError ''NXDOMAIN''"] a c
  have 2: "mx_fallback direct_world [] ''a@nomx.test'' example_content
      = (Inl (LibraryError ''NXDOMAIN''), [Resolve ''nomx.test''])"
    by simp
  from 1 2 show ?thesis by simp
qed

subsection \<open>The relay comes first\<close>

lemma resolved_append: "resolved (xs @ ys) = resolved xs @ resolved ys"
  by (induction xs rule: resolved.induct) simp_all

lemma in_session_unresolved: "list_all in_session evs \<Longrightarrow> resolved evs = []"
proof (induction evs)
  case Nil
  then show ?case by simp
next
  case (Cons ev evs)
  then show ?case by (cases ev) simp_all
qed

lemma relay_calls_no_connect: "list_all (\<lambda>c. \<not> is_connect c) (relay_calls w rcpt c)"
  by (simp add: relay_calls_def Let_def)

lemma relay_calls_starttls: "StartTLS \<in> set (relay_calls w rcpt c) \<longleftrightarrow> relay_starttls w"
  by (simp add: relay_calls_def Let_def)

lemma relay_calls_login:
  "Login u pw \<in> set (relay_calls w rcpt c) \<longleftrightarrow>
     truthy (getenv w ''SMTP_RELAY_USERNAME'') \<and> truthy (getenv w ''SMTP_RELAY_PASSWORD'')
     \<and> u = the (getenv w ''SMTP_RELAY_USERNAME'') \<and> pw = the (getenv w ''SMTP_RELAY_PASSWORD'')"
  by (auto simp: relay_calls_def Let_def)

lemma run_calls_trace:
  "\<exists>k \<le> length cs. snd (run_calls w h cs) = h @ map Smtp (take k cs)
      \<and> (fst (run_calls w h cs) = Inr () \<longrightarrow> k = length cs)"
proof (induction cs arbitrary: h)
  case Nil
  then show ?case by simp
next
  case (Cons c cs)
  show ?case
  proof (cases "smtp w h c")
    case (Inl e)
    then show ?thesis by (intro exI [of _ 1]) simp
  next
    case (Inr u)
    from Cons [of "h @ [Smtp c]"] obtain k where
      "k \<le> length cs" "snd (run_calls w (h @ [Smtp c]) cs) = (h @ [Smtp c]) @ map Smtp (take k cs)"
      "fst (run_calls w (h @ [Smtp c]) cs) = Inr () \<longrightarrow> k = length cs"
      by blast
    with Inr show ?thesis by (intro exI [of _ "Suc k"]) simp
  qed
qed

lemma smtp_session_trace:
  assumes "smtp_session w h host port tmo body = (r, h1)"
  shows "(h1 = h @ [Smtp (Connect host port tmo)] \<and> (\<exists>e. r = Inl e))
       \<or> (\<exists>k \<le> length body.
            h1 = h @ Smtp (Connect host port tmo) # map Smtp (take k body) @ [Smtp Quit]
          \<and> (r = Inr () \<longrightarrow> k = length body))"
proof (cases "smtp w h (Connect host port tmo)")
  case (Inl e)
  with assms have "h1 = h @ [Smtp (Connect host port tmo)]" "r = Inl e"
    by (simp_all add: smtp_session_def)
  then show ?thesis by blast
next
  case (Inr u)
  let ?h0 = "h @ [Smtp (Connect host port tmo)]"
  obtain r0 h0 where rc: "run_calls w ?h0 body = (r0, h0)"
    by (cases "run_calls w ?h0 body")
  from run_calls_trace [of body w ?h0] rc obtain k where
    k: "k \<le> length body" "h0 = ?h0 @ map Smtp (take k body)" "r0 = Inr () \<longrightarrow> k = length body"
    by auto
  show ?thesis
  proof (cases "smtp w h0 Quit")
    case q: (Inl e)
    with Inr rc assms have "h1 = h0 @ [Smtp Quit]" "r = Inl e"
      by (auto simp: smtp_session_def)
    with k show ?thesis by auto
  next
    case q: (Inr v)
    with Inr rc assms have "h1 = h0 @ [Smtp Quit]" "r = r0"
      by (auto simp: smtp_session_def)
    with k show ?thesis by auto
  qed
qed

lemma relay_delivered_events:
  assumes "smtp_session w (h @ [Log (UsingRelay host port rcpt)]) host port 60
             (relay_calls w rcpt c) = (r, h1)"
  shows "connect_targets (drop (length h) (h1 @ [Log (DeliveredViaRelay rcpt host)])) = [(host, port)]"
    and "resolved (drop (length h) (h1 @ [Log (DeliveredViaRelay rcpt host)])) = []"
proof -
  from smtp_session_events [OF relay_calls_no_connect [of w rcpt c],
      of w "h @ [Log (UsingRelay host port rcpt)]" host port 60] assms
  obtain evs where h1: "h1 = (h @ [Log (UsingRelay host port rcpt)]) @ Smtp (Connect host port 60) # evs"
    and evs: "list_all in_session evs"
    by auto
  from h1 have d: "drop (length h) (h1 @ [Log (DeliveredViaRelay rcpt host)])
      = Log (UsingRelay host port rcpt) # Smtp (Connect host port 60) # evs
          @ [Log (DeliveredViaRelay rcpt host)]"
    by simp
  from in_session_quiet(1) [OF evs]
  show "connect_targets (drop (length h) (h1 @ [Log (DeliveredViaRelay rcpt host)])) = [(host, port)]"
    unfolding d by (simp add: connect_targets_append)
  from in_session_unresolved [OF evs]
  show "resolved (drop (length h) (h1 @ [Log (DeliveredViaRelay rcpt host)])) = []"
    unfolding d by (simp add: resolved_append)
qed

text \<open>
  Claim C5, as amended. Let a relay host be configured and let the port setting be
  absent, empty or a text \<^verbatim>\<open>int\<close> accepts (\<open>relay_port w = Inr p\<close>). Then the first
  thing a delivery does is the relay session, to the host and to the configured port, or
  to 587 when that is 0 or not set. The session is the connection alone when that fails,
  and otherwise the connection, the calls of \<open>relay_calls\<close> up to the first that raises,
  and the end of the \<^verbatim>\<open>with\<close> block; a session that succeeds has made all the calls.
  Among the calls is \<^verbatim>\<open>starttls\<close> exactly when the STARTTLS flag is on, and a
  \<^verbatim>\<open>login\<close> exactly when the user name and the password are both present. When the
  session succeeds the delivery returns: it has opened one connection, to the relay, and
  has asked the resolver nothing. When the session raises, the exception is dropped and
  the delivery is what the MX fallback does from there.
\<close>

theorem relay_attempted_first:
  assumes "truthy (getenv w ''SMTP_RELAY_SERVER'')"
    and "relay_port w = Inr p"
    and "host = the (getenv w ''SMTP_RELAY_SERVER'')"
    and "port = (if p \<noteq> 0 then p else 587)"
    and "smtp_session w (h @ [Log (UsingRelay host port rcpt)]) host port 60
           (relay_calls w rcpt c) = (r, h1)"
  shows "((h1 = h @ [Log (UsingRelay host port rcpt), Smtp (Connect host port 60)]
           \<and> (\<exists>e. r = Inl e))
         \<or> (\<exists>k \<le> length (relay_calls w rcpt c).
              h1 = h @ Log (UsingRelay host port rcpt) # Smtp (Connect host port 60)
                     # map Smtp (take k (relay_calls w rcpt c)) @ [Smtp Quit]
            \<and> (r = Inr () \<longrightarrow> k = length (relay_calls w rcpt c))))
       \<and> (StartTLS \<in> set (relay_calls w rcpt c) \<longleftrightarrow> relay_starttls w)
       \<and> ((\<exists>u pw. Login u pw \<in> set (relay_calls w rcpt c)) \<longleftrightarrow>
            truthy (getenv w ''SMTP_RELAY_USERNAME'') \<and> truthy (getenv w ''SMTP_RELAY_PASSWORD''))
       \<and> (r = Inr () \<longrightarrow>
            deliver_to_recipient w h rcpt c = (Inr (), h1 @ [Log (DeliveredViaRelay rcpt host)])
          \<and> connect_targets (drop (length h) (h1 @ [Log (DeliveredViaRelay rcpt host)]))
              = [(host, port)]
          \<and> resolved (drop (length h) (h1 @ [Log (DeliveredViaRelay rcpt host)])) = [])
       \<and> (\<forall>e. r = Inl e \<longrightarrow>
            deliver_to_recipient w h rcpt c
              = mx_fallback w (h1 @ [Log (RelayFailed rcpt host)]) rcpt c)"
proof -
  from smtp_session_trace [OF assms(5)]
  have a: "(h1 = h @ [Log (UsingRelay host port rcpt), Smtp (Connect host port 60)]
           \<and> (\<exists>e. r = Inl e))
         \<or> (\<exists>k \<le> length (relay_calls w rcpt c).
              h1 = h @ Log (UsingRelay host port rcpt) # Smtp (Connect host port 60)
                     # map Smtp (take k (relay_calls w rcpt c)) @ [Smtp Quit]
            \<and> (r = Inr () \<longrightarrow> k = length (relay_calls w rcpt c)))"
    by simp
  have b: "(\<exists>u pw. Login u pw \<in> set (relay_calls w rcpt c)) \<longleftrightarrow>
            truthy (getenv w ''SMTP_RELAY_USERNAME'') \<and> truthy (getenv w ''SMTP_RELAY_PASSWORD'')"
    by (auto simp: relay_calls_login)
  have d: "deliver_to_recipient w h rcpt c = (Inr (), h1 @ [Log (DeliveredViaRelay rcpt host)])"
    if "r = Inr ()"
    using deliver_relay_ok [OF assms(2,1), of h rcpt c "()" h1] assms(3,4,5) that by simp
  have e: "deliver_to_recipient w h rcpt c = mx_fallback w (h1 @ [Log (RelayFailed rcpt host)]) rcpt c"
    if "r = Inl e" for e
    using deliver_relay_failed [OF assms(2,1), of h rcpt c e h1] assms(3,4,5) that by simp
  from a b d e relay_calls_starttls [of w rcpt c] relay_delivered_events [OF assms(5)]
  show ?thesis by blast
qed

text \<open>
  The claim as it was stated holds for every recipient whenever a relay host is
  configured. With the host set and the port setting \<^verbatim>\<open>abc\<close>, \<^verbatim>\<open>int\<close> raises
  before the relay is tried: the delivery ends with \<^verbatim>\<open>ValueError\<close> and without any
  event, neither a relay session nor an MX fallback.
\<close>

theorem relay_bad_port_counterexample:
  "truthy (getenv bad_port_world ''SMTP_RELAY_SERVER'')
   \<and> getenv bad_port_world ''SMTP_RELAY_PORT'' = Some ''abc''
   \<and> deliver_to_recipient bad_port_world [] ''b@hasmx.test'' example_content = (Inl ValueError, [])"
  by code_simp

text \<open>
  The amended claim at a relay that accepts the message (\<open>relay_world\<close>) and at one
  that refuses the connection (\<open>relay_down_world\<close>).
\<close>

theorem relay_attempted_first_witness:
  "deliver_to_recipient relay_world [] ''b@hasmx.test'' example_content
     = (Inr (),
        [Log (UsingRelay ''smtp.gmail.com'' 587 ''b@hasmx.test''),
         Smtp (Connect ''smtp.gmail.com'' 587 60),
         Smtp (Ehlo (Some ''local-relay'')),
         Smtp StartTLS,
         Smtp (Ehlo None),
         Smtp (Login ''relay@x.com'' ''app-password''),
         Smtp (SendMail ''relay@x.com'' [''b@hasmx.test''] example_content),
         Smtp Quit,
         Log (DeliveredViaRelay ''b@hasmx.test'' ''smtp.gmail.com'')])
   \<and> relay_starttls relay_world
   \<and> deliver_to_recipient relay_down_world [] ''b@hasmx.test'' example_content
     = mx_fallback relay_down_world
         [Log (UsingRelay ''smtp.relay.test'' 2525 ''b@hasmx.test''),
          Smtp (Connect ''smtp.relay.test'' 2525 60),
          Log (RelayFailed ''b@hasmx.test'' ''smtp.relay.test'')]
         ''b@hasmx.test'' example_content
   \<and> StartTLS \<notin> set (relay_calls relay_down_world ''b@hasmx.test'' example_content)"
proof -
  let ?rcpt = "''b@hasmx.test''"
  let ?ok = "[Log (UsingRelay ''smtp.gmail.com'' 587 ?rcpt),
         Smtp (Connect ''smtp.gmail.com'' 587 60),
         Smtp (Ehlo (Some ''local-relay'')),
         Smtp StartTLS,
         Smtp (Ehlo None),
         Smtp (Login ''relay@x.com'' ''app-password''),
         Smtp (SendMail ''relay@x.com'' [?rcpt] example_content),
         Smtp Quit]"
  let ?down = "[Log (UsingRelay ''smtp.relay.test'' 2525 ?rcpt),
          Smtp (Connect ''smtp.relay.test'' 2525 60)]"
  have a: "truthy (getenv relay_world ''SMTP_RELAY_SERVER'')"
    "relay_port relay_world = Inr 0"
    "''smtp.gmail.com'' = the (getenv relay_world ''SMTP_RELAY_SERVER'')"
    "(587 :: int) = (if (0 :: int) \<noteq> 0 then 0 else 587)"
    by code_simp+
  have b: "smtp_session relay_world ([] @ [Log (UsingRelay ''smtp.gmail.com'' 587 ?rcpt)])
             ''smtp.gmail.com'' 587 60 (relay_calls relay_world ?rcpt example_content)
           = (Inr (), ?ok)"
    by code_simp
  have c: "truthy (getenv relay_down_world ''SMTP_RELAY_SERVER'')"
    "relay_port relay_down_world = Inr 2525"
    "''smtp.relay.test'' = the (getenv relay_down_world ''SMTP_RELAY_SERVER'')"
    "(2525 :: int) = (if (2525 :: int) \<noteq> 0 then 2525 else 587)"
    by code_simp+
  have d: "smtp_session relay_down_world ([] @ [Log (UsingRelay ''smtp.relay.test'' 2525 ?rcpt)])
             ''smtp.relay.test'' 2525 60 (relay_calls relay_down_world ?rcpt example_content)
           = (Inl (LibraryError ''ConnectionRefusedError''), ?down)"
    by code_simp
  have e: "relay_starttls relay_world" "\<not> relay_starttls relay_down_world"
    by code_simp+
  note ok = relay_attempted_first [OF a b]
  note down = relay_attempted_first [OF c d]
  from ok have 1: "deliver_to_recipient relay_world [] ?rcpt example_content
      = (Inr (), ?ok @ [Log (DeliveredViaRelay ?rcpt ''smtp.gmail.com'')])"
    by blast
  from down have 2: "deliver_to_recipient relay_down_world [] ?rcpt example_content
      = mx_fallback relay_down_world (?down @ [Log (RelayFailed ?rcpt ''smtp.relay.test'')])
          ?rcpt example_content"
    by blast
  from down e have 3: "StartTLS \<notin> set (relay_calls relay_down_world ?rcpt example_content)"
    by blast
  from 1 2 3 e show ?thesis by simp
qed

subsection \<open>Recipients are served independently\<close>

lemma history_free_smtp: "history_free w \<Longrightarrow> smtp w h c = smtp w [] c"
  unfolding history_free_def by blast

lemma history_free_resolve: "history_free w \<Longrightarrow> resolve_mx w h d = resolve_mx w [] d"
  unfolding history_free_def by blast

lemma shift_shift: "shift h (shift k p) = shift (h @ k) p"
  by (simp add: shift_def)

lemma shift_pair: "shift h (r, k) = (r, h @ k)"
  by (simp add: shift_def)

lemma deliver_all_step:
  "deliver_all w h (rcpt # rcpts) c = deliver_all w (attempt w h rcpt c) rcpts c"
  by (simp add: attempt_def split: prod.splits sum.splits)

lemma deliver_all_append:
  "deliver_all w h (rs1 @ rs2) c = deliver_all w (deliver_all w h rs1 c) rs2 c"
proof (induction rs1 arbitrary: h)
  case Nil
  then show ?case by simp
next
  case (Cons r rs1)
  show ?case
    unfolding append_Cons deliver_all_step by (rule Cons.IH)
qed

lemma deliver_all_each:
  "deliver_all w h (rs1 @ rcpt # rs2) c
     = deliver_all w (attempt w (deliver_all w h rs1 c) rcpt c) rs2 c"
  by (simp only: deliver_all_append deliver_all_step)

lemma run_calls_shift:
  assumes "history_free w"
  shows "run_calls w h cs = shift h (run_calls w [] cs)"
proof (induction cs arbitrary: h)
  case Nil
  then show ?case by (simp add: shift_def)
next
  case (Cons c cs)
  from assms have s: "smtp w h c = smtp w [] c" by (rule history_free_smtp)
  show ?case
  proof (cases "smtp w [] c")
    case (Inl e)
    with s show ?thesis by (simp add: shift_def)
  next
    case (Inr u)
    have "run_calls w (h @ [Smtp c]) cs = shift (h @ [Smtp c]) (run_calls w [] cs)"
      by (rule Cons.IH)
    moreover have "run_calls w [Smtp c] cs = shift [Smtp c] (run_calls w [] cs)"
      by (rule Cons.IH)
    ultimately show ?thesis using s Inr by (simp add: shift_shift)
  qed
qed

lemma smtp_session_shift:
  assumes "history_free w"
  shows "smtp_session w h host port tmo body = shift h (smtp_session w [] host port tmo body)"
proof -
  let ?c = "Connect host port tmo"
  from assms have s: "smtp w h ?c = smtp w [] ?c" by (rule history_free_smtp)
  show ?thesis
  proof (cases "smtp w [] ?c")
    case (Inl e)
    with s show ?thesis by (simp add: smtp_session_def shift_def)
  next
    case (Inr u)
    obtain r k where rc: "run_calls w [] body = (r, k)" by (cases "run_calls w [] body")
    from run_calls_shift [OF assms, of "h @ [Smtp ?c]" body]
      run_calls_shift [OF assms, of "[Smtp ?c]" body] rc
    have 1: "run_calls w (h @ [Smtp ?c]) body = (r, (h @ [Smtp ?c]) @ k)"
      and 2: "run_calls w [Smtp ?c] body = (r, [Smtp ?c] @ k)"
      by (simp_all add: shift_def)
    from assms have q: "smtp w ((h @ [Smtp ?c]) @ k) Quit = smtp w ([Smtp ?c] @ k) Quit"
      by (simp only: history_free_smtp [of w "(h @ [Smtp ?c]) @ k"] history_free_smtp [of w "[Smtp ?c] @ k"])
    show ?thesis
      using s Inr 1 2 q
      by (cases "smtp w ([Smtp ?c] @ k) Quit") (simp_all add: smtp_session_def shift_def)
  qed
qed

lemma get_mx_hosts_shift:
  assumes "history_free w"
  shows "get_mx_hosts w h d = shift h (get_mx_hosts w [] d)"
proof -
  from assms have "resolve_mx w h d = resolve_mx w [] d" by (rule history_free_resolve)
  then show ?thesis by (simp add: get_mx_hosts_def shift_def split: sum.splits)
qed

lemma mx_loop_shift:
  assumes "history_free w"
  shows "mx_loop w h rcpt d c hosts le = shift h (mx_loop w [] rcpt d c hosts le)"
proof (induction hosts arbitrary: h le)
  case Nil
  then show ?case by (simp add: shift_def)
next
  case (Cons host hosts)
  let ?l = "Log (AttemptingMX rcpt d host)"
  let ?body = "[Ehlo (Some ''local-relay''), SendMail (envelope_from w c) [rcpt] c]"
  obtain r k where ses: "smtp_session w [] host 25 30 ?body = (r, k)"
    by (cases "smtp_session w [] host 25 30 ?body")
  from smtp_session_shift [OF assms, of "h @ [?l]" host 25 30 ?body]
    smtp_session_shift [OF assms, of "[] @ [?l]" host 25 30 ?body] ses
  have 1: "smtp_session w (h @ [?l]) host 25 30 ?body = (r, (h @ [?l]) @ k)"
    and 2: "smtp_session w ([] @ [?l]) host 25 30 ?body = (r, [?l] @ k)"
    by (simp_all add: shift_def)
  show ?case
  proof (cases r)
    case (Inr u)
    with 1 2 show ?thesis by (simp add: shift_def)
  next
    case (Inl e)
    let ?f = "Log (MXFailed rcpt host e)"
    have a: "mx_loop w (((h @ [?l]) @ k) @ [?f]) rcpt d c hosts (Some e)
            = shift (((h @ [?l]) @ k) @ [?f]) (mx_loop w [] rcpt d c hosts (Some e))"
      by (rule Cons.IH)
    have b: "mx_loop w (([?l] @ k) @ [?f]) rcpt d c hosts (Some e)
            = shift (([?l] @ k) @ [?f]) (mx_loop w [] rcpt d c hosts (Some e))"
      by (rule Cons.IH)
    from Inl 1 have l: "mx_loop w h rcpt d c (host # hosts) le
        = mx_loop w (((h @ [?l]) @ k) @ [?f]) rcpt d c hosts (Some e)"
      by simp
    from Inl 2 have r: "mx_loop w [] rcpt d c (host # hosts) le
        = mx_loop w (([?l] @ k) @ [?f]) rcpt d c hosts (Some e)"
      by simp
    show ?thesis unfolding l r a b shift_shift by simp
  qed
qed

lemma mx_fallback_shift:
  assumes "history_free w"
  shows "mx_fallback w h rcpt c = shift h (mx_fallback w [] rcpt c)"
proof (cases "item (split_once CHR ''@'' rcpt) 1")
  case (Inl e)
  then show ?thesis by (simp add: mx_fallback_def shift_def)
next
  case (Inr d)
  obtain r k where g: "get_mx_hosts w [] d = (r, k)" by (cases "get_mx_hosts w [] d")
  with get_mx_hosts_shift [OF assms, of h d] have g': "get_mx_hosts w h d = (r, h @ k)"
    by (simp add: shift_def)
  show ?thesis
  proof (cases r)
    case (Inl e)
    with Inr g g' show ?thesis by (simp add: mx_fallback_def shift_def)
  next
    case hosts: (Inr hosts)
    show ?thesis
    proof (cases "hosts = []")
      case True
      with Inr g g' hosts show ?thesis by (simp add: mx_fallback_def shift_def)
    next
      case False
      have a: "mx_loop w (h @ k) rcpt d c hosts None
          = shift (h @ k) (mx_loop w [] rcpt d c hosts None)"
        by (rule mx_loop_shift [OF assms])
      have b: "mx_loop w k rcpt d c hosts None = shift k (mx_loop w [] rcpt d c hosts None)"
        by (rule mx_loop_shift [OF assms])
      from False Inr g' hosts have l: "mx_fallback w h rcpt c = mx_loop w (h @ k) rcpt d c hosts None"
        by (simp add: mx_fallback_def)
      from False Inr g hosts have r: "mx_fallback w [] rcpt c = mx_loop w k rcpt d c hosts None"
        by (simp add: mx_fallback_def)
      show ?thesis unfolding l r a b shift_shift ..
    qed
  qed
qed

lemma deliver_to_recipient_shift:
  assumes "history_free w"
  shows "deliver_to_recipient w h rcpt c = shift h (deliver_to_recipient w [] rcpt c)"
proof (cases "relay_port w")
  case (Inl e)
  then show ?thesis by (simp add: deliver_port_error shift_def)
next
  case (Inr p)
  show ?thesis
  proof (cases "truthy (getenv w ''SMTP_RELAY_SERVER'')")
    case False
    with Inr mx_fallback_shift [OF assms, of h rcpt c] show ?thesis
      by (simp add: deliver_no_relay)
  next
    case True
    define host where "host = the (getenv w ''SMTP_RELAY_SERVER'')"
    define port where "port = (if p \<noteq> 0 then p else 587)"
    let ?l = "Log (UsingRelay host port rcpt)"
    obtain r k where ses: "smtp_session w [] host port 60 (relay_calls w rcpt c) = (r, k)"
      by (cases "smtp_session w [] host port 60 (relay_calls w rcpt c)")
    from smtp_session_shift [OF assms, of "h @ [?l]" host port 60 "relay_calls w rcpt c"]
      smtp_session_shift [OF assms, of "[] @ [?l]" host port 60 "relay_calls w rcpt c"] ses
    have 1: "smtp_session w (h @ [?l]) host port 60 (relay_calls w rcpt c) = (r, (h @ [?l]) @ k)"
      and 2: "smtp_session w ([] @ [?l]) host port 60 (relay_calls w rcpt c) = (r, [?l] @ k)"
      by (simp_all add: shift_def)
    show ?thesis
    proof (cases r)
      case u: (Inr u)
      from deliver_relay_ok [OF Inr True, of h rcpt c u "(h @ [?l]) @ k"] 1 u
      have "deliver_to_recipient w h rcpt c
              = (Inr (), ((h @ [?l]) @ k) @ [Log (DeliveredViaRelay rcpt host)])"
        by (simp add: host_def port_def)
      moreover
      from deliver_relay_ok [OF Inr True, of "[]" rcpt c u "[?l] @ k"] 2 u
      have "deliver_to_recipient w [] rcpt c
              = (Inr (), ([?l] @ k) @ [Log (DeliveredViaRelay rcpt host)])"
        by (simp add: host_def port_def)
      ultimately show ?thesis by (simp add: shift_def)
    next
      case (Inl e)
      let ?f = "Log (RelayFailed rcpt host)"
      from deliver_relay_failed [OF Inr True, of h rcpt c e "(h @ [?l]) @ k"] 1 Inl
      have "deliver_to_recipient w h rcpt c = mx_fallback w (((h @ [?l]) @ k) @ [?f]) rcpt c"
        by (simp add: host_def port_def)
      moreover
      from deliver_relay_failed [OF Inr True, of "[]" rcpt c e "[?l] @ k"] 2 Inl
      have "deliver_to_recipient w [] rcpt c = mx_fallback w (([?l] @ k) @ [?f]) rcpt c"
        by (simp add: host_def port_def)
      moreover have "mx_fallback w (((h @ [?l]) @ k) @ [?f]) rcpt c
          = shift (((h @ [?l]) @ k) @ [?f]) (mx_fallback w [] rcpt c)"
        by (rule mx_fallback_shift [OF assms])
      moreover have "mx_fallback w (([?l] @ k) @ [?f]) rcpt c
          = shift (([?l] @ k) @ [?f]) (mx_fallback w [] rcpt c)"
        by (rule mx_fallback_shift [OF assms])
      ultimately show ?thesis by (simp only: shift_shift append_assoc)
    qed
  qed
qed

lemma attempt_shift:
  assumes "history_free w"
  shows "attempt w h rcpt c = h @ attempt w [] rcpt c"
proof -
  obtain r k where d: "deliver_to_recipient w [] rcpt c = (r, k)"
    by (cases "deliver_to_recipient w [] rcpt c")
  with deliver_to_recipient_shift [OF assms, of h rcpt c]
  have "deliver_to_recipient w h rcpt c = (r, h @ k)" by (simp add: shift_def)
  with d show ?thesis by (cases r) (simp_all add: attempt_def)
qed

lemma deliver_all_concat:
  assumes "history_free w"
  shows "deliver_all w h rs c = h @ concat (map (\<lambda>rcpt. attempt w [] rcpt c) rs)"
proof (induction rs arbitrary: h)
  case Nil
  then show ?case by simp
next
  case (Cons r rs)
  have "deliver_all w h (r # rs) c = deliver_all w (attempt w h r c) rs c"
    by (rule deliver_all_step)
  also have "\<dots> = attempt w h r c @ concat (map (\<lambda>rcpt. attempt w [] rcpt c) rs)"
    by (rule Cons.IH)
  also have "attempt w h r c = h @ attempt w [] r c"
    by (rule attempt_shift [OF assms])
  finally show ?case by simp
qed

lemma handle_DATA_files:
  "files (snd (handle_DATA
        (w\<lparr>getenv := g, int_of_str := n, from_header := f, resolve_mx := r, smtp := m\<rparr>)
        (e\<lparr>rcpt_tos := rs\<rparr>) s))
     = files (snd (handle_DATA w e s))"
  by (simp add: handle_DATA_def Let_def split: sum.splits write_outcome.splits)

lemma handle_DATA_stored_copy:
  assumes "stored w e s"
  shows "map_of (files (snd (handle_DATA w e s))) (probe (files s) 1) = Some (content e)"
    and "trace (snd (handle_DATA w e s))
          = deliver_all w (trace s @ [MakeDirs, OpenWrite (probe (files s) 1) (content e)])
              (rcpt_tos e) (content e)"
  using assms handle_DATA_stored [of w s "()" e]
  by (simp_all add: stored_def update_conv')

text \<open>
  Claim C9. The files \<^verbatim>\<open>handle_DATA\<close> leaves are the same whatever the deliveries do
  and whoever the recipients are, and the file written for a stored message holds its
  content at the end of the call: no delivery touches the stored copy. The events of a
  stored message are those of the loop over the recipients, and the loop serves every
  recipient of the list by a delivery of its own (\<open>attempt\<close>), started where the
  recipients before it left off, whether their deliveries raised or not. In a world
  that answers by the request alone, the events of the loop are the events each
  recipient would cause alone, one recipient after the other.
\<close>

theorem recipients_are_independent:
  "files (snd (handle_DATA
        (w\<lparr>getenv := g, int_of_str := n, from_header := f, resolve_mx := r, smtp := m\<rparr>)
        (e\<lparr>rcpt_tos := rs\<rparr>) s))
     = files (snd (handle_DATA w e s))
   \<and> (stored w e s \<longrightarrow>
        map_of (files (snd (handle_DATA w e s))) (probe (files s) 1) = Some (content e)
      \<and> trace (snd (handle_DATA w e s))
          = deliver_all w (trace s @ [MakeDirs, OpenWrite (probe (files s) 1) (content e)])
              (rcpt_tos e) (content e))
   \<and> deliver_all w h (rs1 @ rcpt # rs2) c
       = deliver_all w (attempt w (deliver_all w h rs1 c) rcpt c) rs2 c
   \<and> (history_free w \<longrightarrow>
        deliver_all w h rs' c = h @ concat (map (\<lambda>rcpt. attempt w [] rcpt c) rs'))"
  using handle_DATA_files [where w = w and g = g and n = n and f = f and r = r and m = m
      and e = e and rs = rs and s = s] handle_DATA_stored_copy [of w e s]
    deliver_all_each [of w h rs1 rcpt rs2 c] deliver_all_concat [of w h rs' c]
  by blast

lemma history_free_direct_world: "history_free direct_world"
  by (simp add: history_free_def direct_world_def)

text \<open>
  The scenario of the specification: the delivery to \<^verbatim>\<open>a@nomx.test\<close> fails and is
  logged, the delivery to \<^verbatim>\<open>b@hasmx.test\<close> succeeds as it would alone, and the stored
  copy is there.
\<close>

theorem recipients_are_independent_witness:
  "stored direct_world example_envelope empty_state
   \<and> history_free direct_world
   \<and> map_of (files (snd (handle_DATA direct_world example_envelope empty_state))) 1
       = Some example_content
   \<and> trace (snd (handle_DATA direct_world example_envelope empty_state))
       = [MakeDirs, OpenWrite 1 example_content]
         @ attempt direct_world [] ''a@nomx.test'' example_content
         @ attempt direct_world [] ''b@hasmx.test'' example_content
   \<and> attempt direct_world [] ''a@nomx.test'' example_content
       = [Resolve ''nomx.test'', Log (DeliveryAttemptFailed ''a@nomx.test'')]
   \<and> fst (deliver_to_recipient direct_world [] ''b@hasmx.test'' example_content) = Inr ()"
proof -
  note t = recipients_are_independent [where w = direct_world and e = example_envelope
      and s = empty_state and h = "[MakeDirs, OpenWrite 1 example_content]"
      and c = example_content and rs' = "[''a@nomx.test'', ''b@hasmx.test'']"]
  have a: "stored direct_world example_envelope empty_state" by code_simp
  have b: "probe (files empty_state) 1 = 1" "content example_envelope = example_content"
    "rcpt_tos example_envelope = [''a@nomx.test'', ''b@hasmx.test'']"
    "trace empty_state = []"
    by code_simp+
  have c: "attempt direct_world [] ''a@nomx.test'' example_content
       = [Resolve ''nomx.test'', Log (DeliveryAttemptFailed ''a@nomx.test'')]"
    "fst (deliver_to_recipient direct_world [] ''b@hasmx.test'' example_content) = Inr ()"
    by code_simp+
  from t a b have 1: "map_of (files (snd (handle_DATA direct_world example_envelope empty_state))) 1
       = Some example_content"
    by simp
  from t a b have 2: "trace (snd (handle_DATA direct_world example_envelope empty_state))
       = deliver_all direct_world [MakeDirs, OpenWrite 1 example_content]
           [''a@nomx.test'', ''b@hasmx.test''] example_content"
    by simp
  from t history_free_direct_world
  have 3: "deliver_all direct_world [MakeDirs, OpenWrite 1 example_content]
           [''a@nomx.test'', ''b@hasmx.test''] example_content
       = [MakeDirs, OpenWrite 1 example_content]
         @ concat (map (\<lambda>rcpt. attempt direct_world [] rcpt example_content)
             [''a@nomx.test'', ''b@hasmx.test''])"
    by blast
  from 1 2 3 a c history_free_direct_world show ?thesis by simp
qed

subsection \<open>A recipient without a domain\<close>

lemma mx_fallback_no_at:
  "CHR ''@'' \<notin> set rcpt \<Longrightarrow> mx_fallback w h rcpt c = (Inl IndexError, h)"
  by (simp add: mx_fallback_def domain_of_rcpt [unfolded One_nat_def])

lemma handle_DATA_continues:
  assumes "stored w e s" and "rcpt_tos e = rs1 @ rcpt # rs2"
    and "deliver_to_recipient w
           (deliver_all w (trace s @ [MakeDirs, OpenWrite (probe (files s) 1) (content e)])
              rs1 (content e))
           rcpt (content e) = (Inl x, h2)"
  shows "handle_DATA w e s =
           (Inr ''250 Message accepted for delivery'',
            \<lparr>files = AList.update (probe (files s) 1) (content e) (files s),
             trace = deliver_all w (h2 @ [Log (DeliveryAttemptFailed rcpt)]) rs2 (content e)\<rparr>)"
proof -
  let ?h0 = "trace s @ [MakeDirs, OpenWrite (probe (files s) 1) (content e)]"
  from assms(3) have "attempt w (deliver_all w ?h0 rs1 (content e)) rcpt (content e)
      = h2 @ [Log (DeliveryAttemptFailed rcpt)]"
    by (simp add: attempt_def)
  with assms(2) have "deliver_all w ?h0 (rcpt_tos e) (content e)
      = deliver_all w (h2 @ [Log (DeliveryAttemptFailed rcpt)]) rs2 (content e)"
    by (simp only: deliver_all_each)
  with assms(1) handle_DATA_stored [of w s "()" e] show ?thesis
    by (simp add: stored_def)
qed

text \<open>
  Claim C10. Let the recipient contain no \<^verbatim>\<open>@\<close>. Then \<^verbatim>\<open>rcpt.split("@", 1)\<close> has one
  element and the fallback raises \<^verbatim>\<open>IndexError\<close> at \<^verbatim>\<open>[1]\<close>, before any DNS query.
  So does the delivery when no relay is configured (no relay host; the port setting, if
  there is one, is a number, so that the function gets as far as the fallback), and so
  it does after a relay session that raised. In \<^verbatim>\<open>handle_DATA\<close> the exception is
  caught: for a stored message with this recipient anywhere in the list the reply is
  \<^verbatim>\<open>250 Message accepted for delivery\<close>, the stored copy holds the content, and the
  loop goes on with the recipients after it.
\<close>

theorem recipient_without_at_sign:
  assumes "CHR ''@'' \<notin> set rcpt"
  shows "mx_fallback w h rcpt c = (Inl IndexError, h)
    \<and> (\<not> truthy (getenv w ''SMTP_RELAY_SERVER'') \<and> relay_port w = Inr p
        \<longrightarrow> deliver_to_recipient w h rcpt c = (Inl IndexError, h))
    \<and> (truthy (getenv w ''SMTP_RELAY_SERVER'') \<and> relay_port w = Inr p
        \<and> host = the (getenv w ''SMTP_RELAY_SERVER'') \<and> port = (if p \<noteq> 0 then p else 587)
        \<and> smtp_session w (h @ [Log (UsingRelay host port rcpt)]) host port 60
             (relay_calls w rcpt c) = (Inl x, h1)
        \<longrightarrow> deliver_to_recipient w h rcpt c
              = (Inl IndexError, h1 @ [Log (RelayFailed rcpt host)]))
    \<and> (stored w e s \<and> rcpt_tos e = rs1 @ rcpt # rs2
        \<and> deliver_to_recipient w
             (deliver_all w (trace s @ [MakeDirs, OpenWrite (probe (files s) 1) (content e)])
                rs1 (content e))
             rcpt (content e) = (Inl IndexError, h2)
        \<longrightarrow> handle_DATA w e s =
              (Inr ''250 Message accepted for delivery'',
               \<lparr>files = AList.update (probe (files s) 1) (content e) (files s),
                trace = deliver_all w (h2 @ [Log (DeliveryAttemptFailed rcpt)]) rs2 (content e)\<rparr>)
          \<and> map_of (files (snd (handle_DATA w e s))) (probe (files s) 1) = Some (content e))"
proof -
  note f = mx_fallback_no_at [OF assms]
  have a: "deliver_to_recipient w h rcpt c = (Inl IndexError, h)"
    if "\<not> truthy (getenv w ''SMTP_RELAY_SERVER'')" "relay_port w = Inr p"
    using deliver_no_relay [OF that(2,1), of h rcpt c] f [of w h c]
    by simp
  have b: "deliver_to_recipient w h rcpt c = (Inl IndexError, h1 @ [Log (RelayFailed rcpt host)])"
    if "truthy (getenv w ''SMTP_RELAY_SERVER'')" "relay_port w = Inr p"
      "host = the (getenv w ''SMTP_RELAY_SERVER'')" "port = (if p \<noteq> 0 then p else 587)"
      "smtp_session w (h @ [Log (UsingRelay host port rcpt)]) host port 60
             (relay_calls w rcpt c) = (Inl x, h1)"
    using deliver_relay_failed [OF that(2,1), of h rcpt c x h1] that(3,4,5)
      f [of w "h1 @ [Log (RelayFailed rcpt host)]" c]
    by simp
  have d: "handle_DATA w e s =
              (Inr ''250 Message accepted for delivery'',
               \<lparr>files = AList.update (probe (files s) 1) (content e) (files s),
                trace = deliver_all w (h2 @ [Log (DeliveryAttemptFailed rcpt)]) rs2 (content e)\<rparr>)
          \<and> map_of (files (snd (handle_DATA w e s))) (probe (files s) 1) = Some (content e)"
    if "stored w e s" "rcpt_tos e = rs1 @ rcpt # rs2"
      "deliver_to_recipient w
             (deliver_all w (trace s @ [MakeDirs, OpenWrite (probe (files s) 1) (content e)])
                rs1 (content e))
             rcpt (content e) = (Inl IndexError, h2)"
    using handle_DATA_continues [OF that] handle_DATA_stored_copy(1) [OF that(1)] by simp
  from f [of w h c] a b d show ?thesis by blast
qed

text \<open>
  The recipient \<^verbatim>\<open>nodomain\<close> without a relay (\<open>direct_world\<close>) and behind a relay
  that refuses the connection (\<open>relay_down_world\<close>), and a message to \<^verbatim>\<open>nodomain\<close>
  and \<^verbatim>\<open>b@hasmx.test\<close>.
\<close>

theorem recipient_without_at_sign_witness:
  "deliver_to_recipient direct_world [] ''nodomain'' example_content = (Inl IndexError, [])
   \<and> deliver_to_recipient relay_down_world [] ''nodomain'' example_content
       = (Inl IndexError,
          [Log (UsingRelay ''smtp.relay.test'' 2525 ''nodomain''),
           Smtp (Connect ''smtp.relay.test'' 2525 60),
           Log (RelayFailed ''nodomain'' ''smtp.relay.test'')])
   \<and> fst (handle_DATA direct_world nodomain_envelope empty_state)
       = Inr ''250 Message accepted for delivery''
   \<and> files (snd (handle_DATA direct_world nodomain_envelope empty_state))
       = [(1, example_content)]
   \<and> trace (snd (handle_DATA direct_world nodomain_envelope empty_state))
       = [MakeDirs, OpenWrite 1 example_content, Log (DeliveryAttemptFailed ''nodomain'')]
         @ attempt direct_world [] ''b@hasmx.test'' example_content"
proof -
  let ?h0 = "[MakeDirs, OpenWrite 1 example_content]"
  let ?down = "[Log (UsingRelay ''smtp.relay.test'' 2525 ''nodomain''),
           Smtp (Connect ''smtp.relay.test'' 2525 60)]"
  have n: "CHR ''@'' \<notin> set ''nodomain''" by code_simp
  have a: "\<not> truthy (getenv direct_world ''SMTP_RELAY_SERVER'')"
    "relay_port direct_world = Inr 0"
    by code_simp+
  have b: "truthy (getenv relay_down_world ''SMTP_RELAY_SERVER'')"
    "relay_port relay_down_world = Inr 2525"
    "''smtp.relay.test'' = the (getenv relay_down_world ''SMTP_RELAY_SERVER'')"
    "(2525 :: int) = (if (2525 :: int) \<noteq> 0 then 2525 else 587)"
    "smtp_session relay_down_world ([] @ [Log (UsingRelay ''smtp.relay.test'' 2525 ''nodomain'')])
        ''smtp.relay.test'' 2525 60 (relay_calls relay_down_world ''nodomain'' example_content)
      = (Inl (LibraryError ''ConnectionRefusedError''), ?down)"
    by code_simp+
  have c: "stored direct_world nodomain_envelope empty_state"
    "rcpt_tos nodomain_envelope = [] @ ''nodomain'' # [''b@hasmx.test'']"
    "probe (files empty_state) 1 = 1" "content nodomain_envelope = example_content"
    "trace empty_state = []" "files empty_state = []"
    by code_simp+
  note t1 = recipient_without_at_sign [OF n, where w = direct_world and h = "[]"
      and c = example_content and p = 0]
  from t1 a have 1: "deliver_to_recipient direct_world [] ''nodomain'' example_content
      = (Inl IndexError, [])"
    by blast
  note t2 = recipient_without_at_sign [OF n, where w = relay_down_world and h = "[]"
      and c = example_content and p = 2525 and host = "''smtp.relay.test''" and port = 2525
      and x = "LibraryError ''ConnectionRefusedError''" and ?h1.0 = ?down]
  from t2 b have 2: "deliver_to_recipient relay_down_world [] ''nodomain'' example_content
      = (Inl IndexError, ?down @ [Log (RelayFailed ''nodomain'' ''smtp.relay.test'')])"
    by blast
  note t3 = recipient_without_at_sign [OF n, where w = direct_world and e = nodomain_envelope
      and s = empty_state and ?rs1.0 = "[]" and ?rs2.0 = "[''b@hasmx.test'']" and ?h2.0 = ?h0]
  note t4 = recipient_without_at_sign [OF n, where w = direct_world and h = ?h0
      and c = example_content and p = 0]
  from t4 a
  have "deliver_to_recipient direct_world ?h0 ''nodomain'' example_content = (Inl IndexError, ?h0)"
    by blast
  with c have "deliver_to_recipient direct_world
             (deliver_all direct_world
                (trace empty_state @ [MakeDirs,
                   OpenWrite (probe (files empty_state) 1) (content nodomain_envelope)])
                [] (content nodomain_envelope))
             ''nodomain'' (content nodomain_envelope) = (Inl IndexError, ?h0)"
    by simp
  with t3 c(1,2) have "handle_DATA direct_world nodomain_envelope empty_state =
      (Inr ''250 Message accepted for delivery'',
       \<lparr>files = AList.update (probe (files empty_state) 1) (content nodomain_envelope)
                  (files empty_state),
        trace = deliver_all direct_world (?h0 @ [Log (DeliveryAttemptFailed ''nodomain'')])
                  [''b@hasmx.test''] (content nodomain_envelope)\<rparr>)"
    by blast
  with c have 3: "handle_DATA direct_world nodomain_envelope empty_state =
      (Inr ''250 Message accepted for delivery'',
       \<lparr>files = [(1, example_content)],
        trace = deliver_all direct_world (?h0 @ [Log (DeliveryAttemptFailed ''nodomain'')])
                  [''b@hasmx.test''] example_content\<rparr>)"
    by simp
  have 4: "deliver_all direct_world (?h0 @ [Log (DeliveryAttemptFailed ''nodomain'')])
                  [''b@hasmx.test''] example_content
       = (?h0 @ [Log (DeliveryAttemptFailed ''nodomain'')])
         @ attempt direct_world [] ''b@hasmx.test'' example_content"
    using deliver_all_concat [OF history_free_direct_world,
        of "?h0 @ [Log (DeliveryAttemptFailed ''nodomain'')]" "[''b@hasmx.test'']" example_content]
    by simp
  from 1 2 3 4 show ?thesis by simp
qed

subsection \<open>Two more ways a message can go\<close>

lemma relay_port_rejected:
  "truthy (getenv w ''SMTP_RELAY_PORT'')
    \<Longrightarrow> int_of_str w (the (getenv w ''SMTP_RELAY_PORT'')) = None
    \<Longrightarrow> relay_port w = Inl ValueError"
  by (simp add: relay_port_def)

lemma deliver_all_port_error:
  "relay_port w = Inl x
    \<Longrightarrow> deliver_all w h rs c = h @ map (\<lambda>rcpt. Log (DeliveryAttemptFailed rcpt)) rs"
  by (induction rs arbitrary: h) (simp_all add: deliver_port_error)

text \<open>
  \<^verbatim>\<open>os.makedirs\<close> is called before the \<^verbatim>\<open>try\<close> around the write. When it raises, the
  exception leaves \<^verbatim>\<open>handle_DATA\<close>: the handler returns no reply of its own, writes
  no file and starts no delivery.
\<close>

theorem makedirs_failure_propagates:
  assumes "makedirs w (trace s) = Inl x"
  shows "handle_DATA w e s = (Inl x, \<lparr>files = files s, trace = trace s @ [MakeDirs]\<rparr>)"
  using assms by (simp add: handle_DATA_def)

theorem makedirs_failure_propagates_witness:
  "makedirs no_dir_world (trace empty_state) = Inl (LibraryError ''PermissionError'')
   \<and> handle_DATA no_dir_world example_envelope empty_state
       = (Inl (LibraryError ''PermissionError''), \<lparr>files = [], trace = [MakeDirs]\<rparr>)"
proof -
  have a: "makedirs no_dir_world (trace empty_state) = Inl (LibraryError ''PermissionError'')"
    by code_simp
  have b: "files empty_state = []" "trace empty_state = []" by code_simp+
  from makedirs_failure_propagates [OF a, of example_envelope] a b show ?thesis by simp
qed

text \<open>
  The port setting is read before the relay host is looked at. When it is a text
  \<^verbatim>\<open>int\<close> rejects, every delivery raises \<^verbatim>\<open>ValueError\<close> at once, with or without a
  relay host, and the loop over the recipients only logs one failure per recipient.
\<close>

theorem rejected_port_stops_every_delivery:
  assumes "truthy (getenv w ''SMTP_RELAY_PORT'')"
    and "int_of_str w (the (getenv w ''SMTP_RELAY_PORT'')) = None"
  shows "deliver_to_recipient w h rcpt c = (Inl ValueError, h)
       \<and> deliver_all w h rs c = h @ map (\<lambda>rcpt. Log (DeliveryAttemptFailed rcpt)) rs"
  using relay_port_rejected [OF assms]
  by (simp add: deliver_port_error deliver_all_port_error)

theorem rejected_port_witness:
  "truthy (getenv bad_port_world ''SMTP_RELAY_PORT'')
   \<and> deliver_all bad_port_world [] [''a@nomx.test'', ''b@hasmx.test''] example_content
       = [Log (DeliveryAttemptFailed ''a@nomx.test''), Log (DeliveryAttemptFailed ''b@hasmx.test'')]
   \<and> fst (handle_DATA bad_port_world example_envelope empty_state)
       = Inr ''250 Message accepted for delivery''"
proof -
  have a: "truthy (getenv bad_port_world ''SMTP_RELAY_PORT'')"
    "int_of_str bad_port_world (the (getenv bad_port_world ''SMTP_RELAY_PORT'')) = None"
    by code_simp+
  have b: "fst (handle_DATA bad_port_world example_envelope empty_state)
       = Inr ''250 Message accepted for delivery''"
    by code_simp
  from rejected_port_stops_every_delivery [OF a, of "[]" _ example_content
      "[''a@nomx.test'', ''b@hasmx.test'']"] a b
  show ?thesis by (simp del: deliver_all.simps)
qed

end
